theory Spec2Isabelle
  imports Main "HOL-Library.Word"
begin

unbundle bit_operations_syntax

section \<open>The platform and the file descriptor\<close>

text \<open>
  The model of \<^verbatim>\<open>arm-wchar-tag.c\<close> fixes the C implementation the program was written
  for: an LP64 Linux host with gcc on x86-64. There \<^verbatim>\<open>char\<close> is a signed byte (the program
  uses \<^verbatim>\<open>wchar_size = -1\<close> for "no patch"), \<^verbatim>\<open>int\<close> has 32 bits, \<^verbatim>\<open>unsigned long\<close>,
  \<^verbatim>\<open>size_t\<close> and \<^verbatim>\<open>off_t\<close> have 64 bits, and an \<^verbatim>\<open>Elf32_Word\<close> is read in the host's
  little-endian byte order.

  Positions and sizes (\<^verbatim>\<open>off_t\<close>, \<^verbatim>\<open>size_t\<close>) are natural numbers: the section size comes
  from the 32-bit field \<^verbatim>\<open>sh_size\<close> of an \<^verbatim>\<open>Elf32_Shdr\<close>, a subsection size is a 32-bit
  word, so that no sum the program forms reaches \<open>2 ^ 64\<close>.
\<close>

type_synonym u8 = "8 word"
type_synonym u32 = "32 word"
type_synonym u64 = "64 word"

text \<open>
  Every \<^verbatim>\<open>return 1\<close> of the source is one error value, named after the message printed
  just before it.
\<close>

datatype error =
    Reading_ULEB128
  | Unterminated_ULEB128
  | Skipping_NTBS
  | Unterminated_NTBS
  | Subsection_too_small
  | Reading_subsection_tag
  | Seeking_to_patch
  | Reading_version
  | Unknown_version u8
  | Unexpected_end_of_section
  | Reading_subsection_size
  | Subsection_outside_bounds
  | Skipping_unknown_subsection

text \<open>
  What the program prints without returning: the report of the value of tag 18, the
  message that the old value is too big, the report of the patch, the end of the line
  in read-only mode, and the message about an empty section.
\<close>

datatype event =
    Tag_value u64
  | Old_value_too_big
  | Patched_to int
  | Newline
  | Empty_section

text \<open>
  The open file: its bytes, the offset of the descriptor and what was printed so far.
\<close>

record fd_state =
  contents :: "u8 list"
  offset :: nat
  printed :: "event list"

text \<open>
  \<^verbatim>\<open>read(fd, buf, n)\<close> on a regular file: the bytes from the offset on, at most \<open>n\<close> and
  fewer at the end of the file; the offset moves by the number of bytes read. A read is
  short only at the end of the file: device errors are not modelled.
\<close>

definition fd_read :: "nat \<Rightarrow> fd_state \<Rightarrow> u8 list \<times> fd_state" where
  "fd_read n st =
     (let bs = take n (drop (offset st) (contents st))
      in (bs, st\<lparr>offset := offset st + length bs\<rparr>))"

text \<open>
  \<^verbatim>\<open>lseek(fd, d, SEEK_CUR)\<close>: fails (\<open>None\<close>, the \<open>-1\<close> of the source) when the new offset
  would be negative; seeking beyond the end of the file is allowed.
\<close>

definition lseek_cur :: "int \<Rightarrow> fd_state \<Rightarrow> fd_state option" where
  "lseek_cur d st =
     (if int (offset st) + d < 0 then None
      else Some (st\<lparr>offset := nat (int (offset st) + d)\<rparr>))"

text \<open>
  \<^verbatim>\<open>write(fd, &b, 1)\<close> on a file opened \<^verbatim>\<open>O_RDWR\<close>: inside the file the byte at the offset
  is replaced, at the end it is appended, beyond the end the gap is filled with zeros.
  The write returns 1, so that the branch \<^verbatim>\<open>perror("patching")\<close> of the source is not taken.
\<close>

definition fd_write :: "u8 \<Rightarrow> fd_state \<Rightarrow> fd_state" where
  "fd_write b st =
     (let cs = contents st; off = offset st
      in st\<lparr>contents :=
              (if off < length cs then cs[off := b]
               else cs @ replicate (off - length cs) 0 @ [b]),
            offset := off + 1\<rparr>)"

definition printf :: "event \<Rightarrow> fd_state \<Rightarrow> fd_state" where
  "printf e st = st\<lparr>printed := printed st @ [e]\<rparr>"

section \<open>Primitive decoders\<close>

text \<open>
  \<^verbatim>\<open>(byte & 0x7f) << shift\<close> is computed in \<^verbatim>\<open>int\<close>: 32 bits, the shift count taken modulo
  32 as the x86 shift instruction does, and the \<^verbatim>\<open>int\<close> is sign-extended when it is or-ed
  into the \<^verbatim>\<open>unsigned long\<close> result.
\<close>

definition shl_int :: "u8 \<Rightarrow> nat \<Rightarrow> u64" where
  "shl_int byte shift = scast (push_bit (shift mod 32) (ucast (byte AND 0x7f) :: u32))"

text \<open>
  \<^verbatim>\<open>parse_uleb128\<close>: the loop with its variables \<open>shift\<close> and \<open>*result\<close>; \<open>sz\<close> is the
  parameter \<^verbatim>\<open>size\<close> of the source. The result is the status with the decoded value, the
  new \<open>*pos\<close> and the new state of the descriptor.
\<close>

function uleb128_loop ::
  "nat \<Rightarrow> u64 \<Rightarrow> nat \<Rightarrow> nat \<Rightarrow> fd_state \<Rightarrow> (error + u64) \<times> nat \<times> fd_state" where
  "uleb128_loop shift result pos sz st =
     (if pos < sz then
        (case fd_read 1 st of (bs, st') \<Rightarrow>
           if length bs \<noteq> 1 then (Inl Reading_ULEB128, pos, st')
           else if (bs ! 0) AND 0x80 = 0
             then (Inr (result OR shl_int (bs ! 0) shift), pos + 1, st')
           else if pos + 1 \<ge> sz
             then (Inl Unterminated_ULEB128, pos + 1, st')
           else uleb128_loop (shift + 7) (result OR shl_int (bs ! 0) shift) (pos + 1) sz st')
      else (Inr result, pos, st))"
  by pat_completeness auto
termination
  by (relation "measure (\<lambda>(shift, result, pos, sz, st). sz - pos)") auto

declare uleb128_loop.simps [simp del]

definition parse_uleb128 :: "nat \<Rightarrow> nat \<Rightarrow> fd_state \<Rightarrow> (error + u64) \<times> nat \<times> fd_state" where
  "parse_uleb128 pos sz st = uleb128_loop 0 0 pos sz st"

text \<open>
  What the loop has or-ed into \<open>result\<close> after the bytes \<open>bs\<close>, the first of them shifted
  by \<open>shift\<close>.
\<close>

fun uleb128_or :: "nat \<Rightarrow> u64 \<Rightarrow> u8 list \<Rightarrow> u64" where
  "uleb128_or shift result [] = result"
| "uleb128_or shift result (b # bs) = uleb128_or (shift + 7) (result OR shl_int b shift) bs"

text \<open>
  \<^verbatim>\<open>parse_ntbs\<close>: \<open>result\<close> is the buffer (\<open>None\<close> for \<^verbatim>\<open>NULL\<close>), \<open>i\<close> counts the bytes
  of the string. A byte beyond \<open>result_size\<close> is read and dropped.
\<close>

function ntbs_loop ::
  "u8 list option \<Rightarrow> nat \<Rightarrow> nat \<Rightarrow> nat \<Rightarrow> nat \<Rightarrow> fd_state
     \<Rightarrow> (error + u8 list option) \<times> nat \<times> fd_state" where
  "ntbs_loop result result_size i pos sz st =
     (if pos < sz then
        (case fd_read 1 st of (bs, st') \<Rightarrow>
           if length bs \<noteq> 1 then (Inl Skipping_NTBS, pos, st')
           else if bs ! 0 = 0
             then (Inr (case result of None \<Rightarrow> None
                        | Some buf \<Rightarrow> if i < result_size then Some (buf[i := bs ! 0]) else Some buf),
                   pos + 1, st')
           else if pos + 1 \<ge> sz
             then (Inl Unterminated_NTBS, pos + 1, st')
           else ntbs_loop
                  (case result of None \<Rightarrow> None
                   | Some buf \<Rightarrow> if i < result_size then Some (buf[i := bs ! 0]) else Some buf)
                  result_size (i + 1) (pos + 1) sz st')
      else (Inr result, pos, st))"
  by pat_completeness auto
termination
  by (relation "measure (\<lambda>(result, result_size, i, pos, sz, st). sz - pos)") auto

declare ntbs_loop.simps [simp del]

text \<open>
  After the loop the last byte of the buffer is set to zero. The buffer is returned
  (the empty list when \<open>result\<close> is \<^verbatim>\<open>NULL\<close>, where nothing is stored).
\<close>

definition parse_ntbs ::
  "u8 list option \<Rightarrow> nat \<Rightarrow> nat \<Rightarrow> nat \<Rightarrow> fd_state \<Rightarrow> (error + u8 list) \<times> nat \<times> fd_state" where
  "parse_ntbs result result_size pos sz st =
     (case ntbs_loop result result_size 0 pos sz st of
        (Inl e, pos', st') \<Rightarrow> (Inl e, pos', st')
      | (Inr None, pos', st') \<Rightarrow> (Inr [], pos', st')
      | (Inr (Some buf), pos', st') \<Rightarrow> (Inr (buf[result_size - 1 := 0]), pos', st'))"

text \<open>\<^verbatim>\<open>strcmp(s, t) == 0\<close> on a buffer: the bytes before its first zero are those of \<open>t\<close>.\<close>

definition strcmp_eq :: "u8 list \<Rightarrow> u8 list \<Rightarrow> bool" where
  "strcmp_eq buf t = (takeWhile (\<lambda>b. b \<noteq> 0) buf = t)"

definition aeabi :: "u8 list" where
  "aeabi = [0x61, 0x65, 0x61, 0x62, 0x69]"

section \<open>What the primitive decoders do to the cursor and to the file\<close>

lemma fd_read_contents [simp]: "contents (snd (fd_read n st)) = contents st"
  by (simp add: fd_read_def Let_def)

lemma fd_read_printed [simp]: "printed (snd (fd_read n st)) = printed st"
  by (simp add: fd_read_def Let_def)

lemma fd_read_offset: "offset (snd (fd_read n st)) = offset st + length (fst (fd_read n st))"
  by (simp add: fd_read_def Let_def)

lemma fd_read_one:
  "offset st < length (contents st) \<Longrightarrow>
     fd_read 1 st = ([contents st ! offset st], st\<lparr>offset := offset st + 1\<rparr>)"
  by (simp add: fd_read_def Let_def take_Suc_conv_app_nth)

lemma fd_read_length: "length (fst (fd_read n st)) \<le> n"
  by (simp add: fd_read_def Let_def)

lemma fd_read_in_file:
  "offset st \<le> length (contents st) \<longrightarrow>
     offset (snd (fd_read n st)) \<le> length (contents (snd (fd_read n st)))"
  by (auto simp: fd_read_def Let_def min_def)

lemma fd_read_one_short: "length (fst (fd_read 1 st)) \<noteq> 1 \<longrightarrow> fst (fd_read 1 st) = []"
  using fd_read_length [of 1 st] by (cases "fst (fd_read 1 st)") auto

lemma uleb128_loop_cursor:
  "uleb128_loop shift result pos sz st = (r, pos', st') \<Longrightarrow>
     pos \<le> pos' \<and> (pos \<le> sz \<longrightarrow> pos' \<le> sz) \<and> pos' \<le> pos + (sz - pos)
     \<and> offset st' + pos = offset st + pos'
     \<and> contents st' = contents st \<and> printed st' = printed st
     \<and> (pos < sz \<longrightarrow> (\<exists>v. r = Inr v) \<longrightarrow> pos < pos')
     \<and> (offset st \<le> length (contents st) \<longrightarrow> offset st' \<le> length (contents st'))"
proof (induction shift result pos sz st rule: uleb128_loop.induct)
  case (1 shift result pos sz st)
  show ?case
  proof (cases "pos < sz")
    case False
    with "1.prems" show ?thesis
      by (simp add: uleb128_loop.simps)
  next
    case True
    obtain bs st1 where rd: "fd_read 1 st = (bs, st1)"
      by (cases "fd_read 1 st")
    have st1: "contents st1 = contents st" "printed st1 = printed st"
      "offset st1 = offset st + length bs" "length bs \<noteq> 1 \<longrightarrow> bs = []"
      "offset st \<le> length (contents st) \<longrightarrow> offset st1 \<le> length (contents st1)"
      using rd fd_read_contents [of 1 st] fd_read_printed [of 1 st] fd_read_offset [of 1 st]
        fd_read_one_short [of st] fd_read_in_file [of st 1]
      by simp_all
    show ?thesis
    proof (cases "length bs \<noteq> 1 \<or> (bs ! 0) AND 0x80 = 0 \<or> sz \<le> pos + 1")
      case True
      with \<open>pos < sz\<close> rd st1 "1.prems" show ?thesis
        by (auto simp: uleb128_loop.simps [of shift result pos sz st] split: if_splits)
    next
      case False
      with \<open>pos < sz\<close> rd "1.prems"
      have rec: "uleb128_loop (shift + 7) (result OR shl_int (bs ! 0) shift) (pos + 1) sz st1
                 = (r, pos', st')"
        by (simp add: uleb128_loop.simps [of shift result pos sz st])
      from False have "length bs = 1" by simp
      with "1.IH" [OF \<open>pos < sz\<close> rd [symmetric] _ _ _ rec] False st1 show ?thesis
        by auto
    qed
  qed
qed

lemma parse_uleb128_cursor:
  "parse_uleb128 pos sz st = (r, pos', st') \<Longrightarrow>
     pos \<le> pos' \<and> (pos \<le> sz \<longrightarrow> pos' \<le> sz) \<and> pos' \<le> pos + (sz - pos)
     \<and> offset st' + pos = offset st + pos'
     \<and> contents st' = contents st \<and> printed st' = printed st
     \<and> (pos < sz \<longrightarrow> (\<exists>v. r = Inr v) \<longrightarrow> pos < pos')
     \<and> (offset st \<le> length (contents st) \<longrightarrow> offset st' \<le> length (contents st'))"
  unfolding parse_uleb128_def by (rule uleb128_loop_cursor)

lemma parse_uleb128_at_boundary: "sz \<le> pos \<Longrightarrow> parse_uleb128 pos sz st = (Inr 0, pos, st)"
  by (simp add: parse_uleb128_def uleb128_loop.simps)

lemma ntbs_loop_cursor:
  "ntbs_loop result result_size i pos sz st = (r, pos', st') \<Longrightarrow>
     pos \<le> pos' \<and> (pos \<le> sz \<longrightarrow> pos' \<le> sz) \<and> pos' \<le> pos + (sz - pos)
     \<and> offset st' + pos = offset st + pos'
     \<and> contents st' = contents st \<and> printed st' = printed st
     \<and> (pos < sz \<longrightarrow> (\<exists>v. r = Inr v) \<longrightarrow> pos < pos')
     \<and> (offset st \<le> length (contents st) \<longrightarrow> offset st' \<le> length (contents st'))"
proof (induction result result_size i pos sz st rule: ntbs_loop.induct)
  case (1 result result_size i pos sz st)
  show ?case
  proof (cases "pos < sz")
    case False
    with "1.prems" show ?thesis
      by (simp add: ntbs_loop.simps)
  next
    case True
    obtain bs st1 where rd: "fd_read 1 st = (bs, st1)"
      by (cases "fd_read 1 st")
    have st1: "contents st1 = contents st" "printed st1 = printed st"
      "offset st1 = offset st + length bs" "length bs \<noteq> 1 \<longrightarrow> bs = []"
      "offset st \<le> length (contents st) \<longrightarrow> offset st1 \<le> length (contents st1)"
      using rd fd_read_contents [of 1 st] fd_read_printed [of 1 st] fd_read_offset [of 1 st]
        fd_read_one_short [of st] fd_read_in_file [of st 1]
      by simp_all
    show ?thesis
    proof (cases "length bs \<noteq> 1 \<or> bs ! 0 = 0 \<or> sz \<le> pos + 1")
      case True
      with \<open>pos < sz\<close> rd st1 "1.prems" show ?thesis
        by (auto simp: ntbs_loop.simps [of result result_size i pos sz st] split: if_splits)
    next
      case False
      with \<open>pos < sz\<close> rd "1.prems"
      have rec: "ntbs_loop
                   (case result of None \<Rightarrow> None
                    | Some buf \<Rightarrow> if i < result_size then Some (buf[i := bs ! 0]) else Some buf)
                   result_size (i + 1) (pos + 1) sz st1 = (r, pos', st')"
        by (simp add: ntbs_loop.simps [of result result_size i pos sz st])
      from False have "length bs = 1" by simp
      with "1.IH" [OF \<open>pos < sz\<close> rd [symmetric] _ _ _ rec] False st1 show ?thesis
        by auto
    qed
  qed
qed

lemma parse_ntbs_cursor:
  "parse_ntbs result result_size pos sz st = (r, pos', st') \<Longrightarrow>
     pos \<le> pos' \<and> (pos \<le> sz \<longrightarrow> pos' \<le> sz) \<and> pos' \<le> pos + (sz - pos)
     \<and> offset st' + pos = offset st + pos'
     \<and> contents st' = contents st \<and> printed st' = printed st
     \<and> (pos < sz \<longrightarrow> (\<exists>v. r = Inr v) \<longrightarrow> pos < pos')
     \<and> (offset st \<le> length (contents st) \<longrightarrow> offset st' \<le> length (contents st'))"
proof -
  assume a: "parse_ntbs result result_size pos sz st = (r, pos', st')"
  obtain r0 p0 s0 where l: "ntbs_loop result result_size 0 pos sz st = (r0, p0, s0)"
    by (cases "ntbs_loop result result_size 0 pos sz st")
  from a l have "p0 = pos'" "s0 = st'" "(\<exists>v. r = Inr v) \<longrightarrow> (\<exists>v. r0 = Inr v)"
    by (auto simp: parse_ntbs_def split: sum.splits option.splits)
  with ntbs_loop_cursor [OF l] show ?thesis
    by blast
qed

section \<open>The subsection tag dispatcher\<close>

text \<open>
  \<^verbatim>\<open>ret = parse_...(...); if (ret != 0) return ret;\<close> keeps the status of a primitive
  decoder and drops what it decoded.
\<close>

fun status :: "(error + 'a) \<times> nat \<times> fd_state \<Rightarrow> (error + unit) \<times> nat \<times> fd_state" where
  "status (Inl e, pos, st) = (Inl e, pos, st)"
| "status (Inr v, pos, st) = (Inr (), pos, st)"

text \<open>
  The \<^verbatim>\<open>do ... while (id != 0)\<close> loop over the section or symbol identifiers that follow
  the indicator tags 2 and 3.
\<close>

function skip_identifiers :: "nat \<Rightarrow> nat \<Rightarrow> fd_state \<Rightarrow> (error + unit) \<times> nat \<times> fd_state" where
  "skip_identifiers pos sh_size st =
     (case parse_uleb128 pos sh_size st of
        (Inl e, pos', st') \<Rightarrow> (Inl e, pos', st')
      | (Inr ident, pos', st') \<Rightarrow>
          if ident \<noteq> 0 then skip_identifiers pos' sh_size st' else (Inr (), pos', st'))"
  by pat_completeness auto
termination
proof (relation "measure (\<lambda>(pos, sh_size, st). sh_size - pos)")
  show "wf (measure (\<lambda>(pos, sh_size, st). sh_size - pos))"
    by simp
next
  fix pos sh_size :: nat and st :: fd_state and x y ident pos' st'
  assume p: "(x, y) = parse_uleb128 pos sh_size st" "(pos', st') = y" "x = Inr ident"
    and nz: "ident \<noteq> 0"
  from p have eq: "parse_uleb128 pos sh_size st = (Inr ident, pos', st')"
    by simp
  have "pos < sh_size"
  proof (rule ccontr)
    assume "\<not> pos < sh_size"
    then have "parse_uleb128 pos sh_size st = (Inr 0, pos, st)"
      by (simp add: parse_uleb128_at_boundary)
    with eq nz show False by simp
  qed
  with parse_uleb128_cursor [OF eq]
  show "((pos', sh_size, st'), (pos, sh_size, st)) \<in> measure (\<lambda>(pos, sh_size, st). sh_size - pos)"
    by auto
qed

declare skip_identifiers.simps [simp del]

text \<open>
  \<^verbatim>\<open>case 18\<close>, lines 154 to 182: the value is decoded and reported; with a patch request
  (\<^verbatim>\<open>wchar_size >= 0\<close>) the message about a value above \<open>0x7f\<close> is printed, and then, with
  no \<^verbatim>\<open>return\<close> in between, the descriptor is moved one byte back and \<^verbatim>\<open>wchar_size\<close> is
  written.
\<close>

definition tag_abi_pcs_wchar_t ::
  "nat \<Rightarrow> nat \<Rightarrow> u8 \<Rightarrow> fd_state \<Rightarrow> (error + unit) \<times> nat \<times> fd_state" where
  "tag_abi_pcs_wchar_t pos sh_size wchar_size st =
     (case parse_uleb128 pos sh_size st of
        (Inl e, pos', st1) \<Rightarrow> (Inl e, pos', st1)
      | (Inr val, pos', st1) \<Rightarrow>
          (let st2 = printf (Tag_value val) st1 in
           if 0 \<le> sint wchar_size then
             (let st3 = (if 0x7f < val then printf Old_value_too_big st2 else st2) in
              case lseek_cur (- 1) st3 of
                None \<Rightarrow> (Inl Seeking_to_patch, pos', st3)
              | Some st4 \<Rightarrow>
                  (Inr (), pos', printf (Patched_to (sint wchar_size)) (fd_write wchar_size st4)))
           else (Inr (), pos', printf Newline st2)))"

text \<open>
  The \<^verbatim>\<open>switch (attr)\<close>. The 1024-byte \<^verbatim>\<open>buf\<close> is written by \<^verbatim>\<open>parse_ntbs\<close> and never read,
  so the bytes it holds before the call have no part in the run.
\<close>

definition attribute_switch ::
  "u64 \<Rightarrow> nat \<Rightarrow> nat \<Rightarrow> u8 \<Rightarrow> fd_state \<Rightarrow> (error + unit) \<times> nat \<times> fd_state" where
  "attribute_switch attr pos sh_size wchar_size st =
     (if attr = 4 \<or> attr = 5 \<or> attr = 67 \<or> attr = 32 then
        status (parse_ntbs (Some (replicate 1024 0)) 1024 pos sh_size st)
      else if attr = 18 then tag_abi_pcs_wchar_t pos sh_size wchar_size st
      else if 32 < attr then
        (if attr mod 2 = 0 then status (parse_uleb128 pos sh_size st)
         else status (parse_ntbs None 0 pos sh_size st))
      else status (parse_uleb128 pos sh_size st))"

text \<open>One turn of the \<^verbatim>\<open>while (*pos < sh_size)\<close> loop: a tag and its payload.\<close>

definition parse_attribute ::
  "nat \<Rightarrow> nat \<Rightarrow> u8 \<Rightarrow> fd_state \<Rightarrow> (error + unit) \<times> nat \<times> fd_state" where
  "parse_attribute pos sh_size wchar_size st =
     (case parse_uleb128 pos sh_size st of
        (Inl e, pos1, st1) \<Rightarrow> (Inl e, pos1, st1)
      | (Inr attr, pos1, st1) \<Rightarrow> attribute_switch attr pos1 sh_size wchar_size st1)"

lemma status_cursor:
  "status x = (r, pos', st') \<Longrightarrow> \<exists>r0. x = (r0, pos', st') \<and> ((\<exists>v. r = Inr v) \<longrightarrow> (\<exists>v. r0 = Inr v))"
  by (cases x rule: status.cases) auto

lemma lseek_cur_fields:
  "lseek_cur d st = Some st' \<Longrightarrow>
     contents st' = contents st \<and> printed st' = printed st \<and> int (offset st') = int (offset st) + d"
  by (auto simp: lseek_cur_def split: if_splits)

lemma fd_write_fields:
  "offset (fd_write b st) = offset st + 1 \<and> printed (fd_write b st) = printed st"
  by (simp add: fd_write_def Let_def)

lemma printf_fields [simp]:
  "offset (printf e st) = offset st" "contents (printf e st) = contents st"
  by (simp_all add: printf_def)

lemma tag_abi_pcs_wchar_t_cursor:
  assumes "tag_abi_pcs_wchar_t pos sh_size wchar_size st = (r, pos', st')"
  shows "pos \<le> pos' \<and> pos' \<le> pos + (sh_size - pos) \<and> offset st' + pos = offset st + pos'"
proof -
  obtain r1 p1 s1 where u: "parse_uleb128 pos sh_size st = (r1, p1, s1)"
    by (cases "parse_uleb128 pos sh_size st")
  note c = parse_uleb128_cursor [OF u]
  show ?thesis
  proof (cases r1)
    case (Inl e)
    with assms u c show ?thesis
      by (simp add: tag_abi_pcs_wchar_t_def)
  next
    case (Inr val)
    show ?thesis
    proof (cases "0 \<le> sint wchar_size")
      case False
      with assms u c Inr show ?thesis
        by (auto simp: tag_abi_pcs_wchar_t_def Let_def)
    next
      case True
      define s3 where "s3 = (if 0x7f < val then printf Old_value_too_big (printf (Tag_value val) s1)
                             else printf (Tag_value val) s1)"
      have o3: "offset s3 = offset s1"
        by (simp add: s3_def)
      show ?thesis
      proof (cases "lseek_cur (- 1) s3")
        case None
        with assms u Inr True have "pos' = p1" "st' = s3"
          by (simp_all add: tag_abi_pcs_wchar_t_def Let_def s3_def)
        with c o3 show ?thesis by simp
      next
        case (Some s4)
        with assms u Inr True
        have "pos' = p1" "st' = printf (Patched_to (sint wchar_size)) (fd_write wchar_size s4)"
          by (simp_all add: tag_abi_pcs_wchar_t_def Let_def s3_def)
        moreover from lseek_cur_fields [OF Some] o3 have "offset s1 = offset s4 + 1"
          by linarith
        ultimately show ?thesis
          using c fd_write_fields [of wchar_size s4] by simp
      qed
    qed
  qed
qed

lemma attribute_switch_cursor:
  assumes "attribute_switch attr pos sh_size wchar_size st = (r, pos', st')"
  shows "pos \<le> pos' \<and> pos' \<le> pos + (sh_size - pos) \<and> offset st' + pos = offset st + pos'"
proof -
  consider
      (ntbs) res n where "status (parse_ntbs res n pos sh_size st) = (r, pos', st')"
    | (wchar) "tag_abi_pcs_wchar_t pos sh_size wchar_size st = (r, pos', st')"
    | (uleb) "status (parse_uleb128 pos sh_size st) = (r, pos', st')"
    using assms by (auto simp: attribute_switch_def split: if_splits)
  then show ?thesis
  proof cases
    case ntbs
    from status_cursor [OF ntbs] obtain r0
      where "parse_ntbs res n pos sh_size st = (r0, pos', st')" by blast
    from parse_ntbs_cursor [OF this] show ?thesis by simp
  next
    case wchar
    then show ?thesis by (rule tag_abi_pcs_wchar_t_cursor)
  next
    case uleb
    from status_cursor [OF uleb] obtain r0
      where "parse_uleb128 pos sh_size st = (r0, pos', st')" by blast
    from parse_uleb128_cursor [OF this] show ?thesis by simp
  qed
qed

lemma parse_attribute_cursor:
  assumes "parse_attribute pos sh_size wchar_size st = (r, pos', st')"
  shows "pos \<le> pos' \<and> pos' \<le> pos + (sh_size - pos) \<and> offset st' + pos = offset st + pos'
         \<and> (pos < sh_size \<longrightarrow> (\<exists>v. r = Inr v) \<longrightarrow> pos < pos')"
proof -
  obtain r1 p1 s1 where u: "parse_uleb128 pos sh_size st = (r1, p1, s1)"
    by (cases "parse_uleb128 pos sh_size st")
  note c = parse_uleb128_cursor [OF u]
  show ?thesis
  proof (cases r1)
    case (Inl e)
    with assms u c show ?thesis
      by (auto simp: parse_attribute_def)
  next
    case (Inr attr)
    with assms u have "attribute_switch attr p1 sh_size wchar_size s1 = (r, pos', st')"
      by (simp add: parse_attribute_def)
    from attribute_switch_cursor [OF this] c Inr show ?thesis
      by auto
  qed
qed

text \<open>The loop over the attributes of the subsection.\<close>

function aeabi_loop :: "nat \<Rightarrow> nat \<Rightarrow> u8 \<Rightarrow> fd_state \<Rightarrow> (error + unit) \<times> nat \<times> fd_state" where
  "aeabi_loop pos sh_size wchar_size st =
     (if pos < sh_size then
        (case parse_attribute pos sh_size wchar_size st of
           (Inl e, pos', st') \<Rightarrow> (Inl e, pos', st')
         | (Inr u, pos', st') \<Rightarrow> aeabi_loop pos' sh_size wchar_size st')
      else (Inr (), pos, st))"
  by pat_completeness auto
termination
proof (relation "measure (\<lambda>(pos, sh_size, wchar_size, st). sh_size - pos)")
  show "wf (measure (\<lambda>(pos, sh_size, wchar_size, st). sh_size - pos))"
    by simp
next
  fix pos sh_size :: nat and wchar_size :: u8 and st :: fd_state and x y u pos' st'
  assume lt: "pos < sh_size"
    and p: "(x, y) = parse_attribute pos sh_size wchar_size st" "(pos', st') = y" "x = Inr u"
  from p have "parse_attribute pos sh_size wchar_size st = (Inr u, pos', st')"
    by simp
  from parse_attribute_cursor [OF this] lt
  show "((pos', sh_size, wchar_size, st'), (pos, sh_size, wchar_size, st))
          \<in> measure (\<lambda>(pos, sh_size, wchar_size, st). sh_size - pos)"
    by auto
qed

declare aeabi_loop.simps [simp del]

text \<open>
  \<^verbatim>\<open>parse_eabi_attr_aeabi_subsection\<close>: \<open>pos\<close> is the position inside the subsection,
  \<open>sh_size\<close> the size of the subsection.
\<close>

definition parse_eabi_attr_aeabi_subsection ::
  "nat \<Rightarrow> nat \<Rightarrow> u8 \<Rightarrow> fd_state \<Rightarrow> (error + unit) \<times> nat \<times> fd_state" where
  "parse_eabi_attr_aeabi_subsection pos sh_size wchar_size st =
     (if sh_size < 1 then (Inl Subsection_too_small, pos, st)
      else
        (case fd_read 1 st of (bs, st1) \<Rightarrow>
           if length bs \<noteq> 1 then (Inl Reading_subsection_tag, pos, st1)
           else if bs ! 0 = 2 \<or> bs ! 0 = 3 then
             (case skip_identifiers (pos + 1) sh_size st1 of
                (Inl e, pos2, st2) \<Rightarrow> (Inl e, pos2, st2)
              | (Inr u, pos2, st2) \<Rightarrow> aeabi_loop pos2 sh_size wchar_size st2)
           else aeabi_loop (pos + 1) sh_size wchar_size st1))"

lemma skip_identifiers_cursor:
  "skip_identifiers pos sh_size st = (r, pos', st') \<Longrightarrow>
     pos \<le> pos' \<and> pos' \<le> pos + (sh_size - pos) \<and> offset st' + pos = offset st + pos'"
proof (induction pos sh_size st rule: skip_identifiers.induct)
  case (1 pos sh_size st)
  obtain r1 p1 s1 where u: "parse_uleb128 pos sh_size st = (r1, p1, s1)"
    by (cases "parse_uleb128 pos sh_size st")
  note c = parse_uleb128_cursor [OF u]
  show ?case
  proof (cases r1)
    case (Inl e)
    with "1.prems" u c show ?thesis
      by (simp add: skip_identifiers.simps [of pos sh_size st])
  next
    case (Inr ident)
    show ?thesis
    proof (cases "ident = 0")
      case True
      with "1.prems" u c Inr show ?thesis
        by (simp add: skip_identifiers.simps [of pos sh_size st])
    next
      case False
      with "1.prems" u Inr have "skip_identifiers p1 sh_size s1 = (r, pos', st')"
        by (simp add: skip_identifiers.simps [of pos sh_size st])
      from "1.IH" [OF u [symmetric] Inr refl False this] c show ?thesis
        by auto
    qed
  qed
qed

lemma aeabi_loop_cursor:
  "aeabi_loop pos sh_size wchar_size st = (r, pos', st') \<Longrightarrow>
     pos \<le> pos' \<and> pos' \<le> pos + (sh_size - pos) \<and> offset st' + pos = offset st + pos'"
proof (induction pos sh_size wchar_size st rule: aeabi_loop.induct)
  case (1 pos sh_size wchar_size st)
  show ?case
  proof (cases "pos < sh_size")
    case False
    with "1.prems" show ?thesis
      by (simp add: aeabi_loop.simps)
  next
    case True
    obtain r1 p1 s1 where a: "parse_attribute pos sh_size wchar_size st = (r1, p1, s1)"
      by (cases "parse_attribute pos sh_size wchar_size st")
    note c = parse_attribute_cursor [OF a]
    show ?thesis
    proof (cases r1)
      case (Inl e)
      with "1.prems" True a c show ?thesis
        by (simp add: aeabi_loop.simps [of pos sh_size wchar_size st])
    next
      case (Inr u)
      with "1.prems" True a have "aeabi_loop p1 sh_size wchar_size s1 = (r, pos', st')"
        by (simp add: aeabi_loop.simps [of pos sh_size wchar_size st])
      from "1.IH" [OF True a [symmetric] Inr refl this] c show ?thesis
        by auto
    qed
  qed
qed

lemma parse_eabi_attr_aeabi_subsection_cursor:
  assumes "parse_eabi_attr_aeabi_subsection pos sh_size wchar_size st = (r, pos', st')"
  shows "pos \<le> pos' \<and> offset st' + pos = offset st + pos' \<and> ((\<exists>v. r = Inr v) \<longrightarrow> pos < pos')"
proof (cases "sh_size < 1")
  case True
  with assms show ?thesis
    by (auto simp: parse_eabi_attr_aeabi_subsection_def)
next
  case False
  obtain bs st1 where rd: "fd_read 1 st = (bs, st1)"
    by (cases "fd_read 1 st")
  have st1: "offset st1 = offset st + length bs" "length bs \<noteq> 1 \<longrightarrow> bs = []"
    using rd fd_read_offset [of 1 st] fd_read_one_short [of st] by simp_all
  show ?thesis
  proof (cases "length bs \<noteq> 1")
    case True
    with assms False rd st1 show ?thesis
      by (auto simp: parse_eabi_attr_aeabi_subsection_def)
  next
    case len: False
    show ?thesis
    proof (cases "bs ! 0 = 2 \<or> bs ! 0 = 3")
      case False
      with assms \<open>\<not> sh_size < 1\<close> rd len
      have "aeabi_loop (pos + 1) sh_size wchar_size st1 = (r, pos', st')"
        by (simp add: parse_eabi_attr_aeabi_subsection_def)
      from aeabi_loop_cursor [OF this] st1 len show ?thesis
        by auto
    next
      case True
      obtain r2 p2 s2 where sk: "skip_identifiers (pos + 1) sh_size st1 = (r2, p2, s2)"
        by (cases "skip_identifiers (pos + 1) sh_size st1")
      note c2 = skip_identifiers_cursor [OF sk]
      show ?thesis
      proof (cases r2)
        case (Inl e)
        with assms \<open>\<not> sh_size < 1\<close> rd len True sk c2 st1 show ?thesis
          by (auto simp: parse_eabi_attr_aeabi_subsection_def)
      next
        case (Inr u)
        with assms \<open>\<not> sh_size < 1\<close> rd len True sk
        have "aeabi_loop p2 sh_size wchar_size s2 = (r, pos', st')"
          by (auto simp: parse_eabi_attr_aeabi_subsection_def)
        from aeabi_loop_cursor [OF this] c2 st1 len show ?thesis
          by auto
      qed
    qed
  qed
qed

section \<open>The attributes-section walker\<close>

text \<open>The \<^verbatim>\<open>Elf32_Word\<close> held by four bytes, least significant byte first.\<close>

definition elf32_word :: "u8 list \<Rightarrow> u32" where
  "elf32_word bs =
     ucast (bs ! 0) OR push_bit 8 (ucast (bs ! 1)) OR push_bit 16 (ucast (bs ! 2))
       OR push_bit 24 (ucast (bs ! 3))"

text \<open>
  One turn of the \<^verbatim>\<open>while (pos < sh_size)\<close> loop of \<^verbatim>\<open>parse_eabi_attr_section\<close>; the result
  is the new value of \<open>pos\<close>. \<open>vendor_name i\<close> is the byte that the uninitialised 128-byte
  array of that name holds at index \<open>i\<close> when the turn begins. The test of the relative
  seek is the one of the source: the turn goes on when \<^verbatim>\<open>lseek\<close> fails and returns 1 when it
  succeeds.
\<close>

definition parse_subsection ::
  "(nat \<Rightarrow> u8) \<Rightarrow> nat \<Rightarrow> nat \<Rightarrow> u8 \<Rightarrow> fd_state \<Rightarrow> (error + nat) \<times> fd_state" where
  "parse_subsection vendor_name pos sh_size wchar_size st =
     (if sh_size < pos + 4 then (Inl Unexpected_end_of_section, st)
      else
        (case fd_read 4 st of (bs, st1) \<Rightarrow>
           if length bs \<noteq> 4 then (Inl Reading_subsection_size, st1)
           else if sh_size < pos + unat (elf32_word bs) then (Inl Subsection_outside_bounds, st1)
           else
             (case parse_ntbs (Some (map vendor_name [0..<128])) 128 4 (unat (elf32_word bs)) st1 of
                (Inl e, spos, st2) \<Rightarrow> (Inl e, st2)
              | (Inr name, spos, st2) \<Rightarrow>
                  if strcmp_eq name aeabi then
                    (case parse_eabi_attr_aeabi_subsection spos (unat (elf32_word bs))
                            wchar_size st2 of
                       (Inl e, spos', st3) \<Rightarrow> (Inl e, st3)
                     | (Inr u, spos', st3) \<Rightarrow> (Inr (pos + spos'), st3))
                  else
                    (case lseek_cur (int (unat (elf32_word bs)) - int spos) st2 of
                       Some st3 \<Rightarrow> (Inl Skipping_unknown_subsection, st3)
                     | None \<Rightarrow> (Inr (pos + unat (elf32_word bs)), st2)))))"

lemma parse_subsection_advances:
  assumes "parse_subsection vendor_name pos sh_size wchar_size st = (Inr pos', st')"
  shows "pos + 4 \<le> pos'"
proof -
  obtain bs st1 where rd: "fd_read 4 st = (bs, st1)"
    by (cases "fd_read 4 st")
  define L where "L = unat (elf32_word bs)"
  from assms rd have ok: "\<not> sh_size < pos + 4" "length bs = 4" "\<not> sh_size < pos + L"
    by (auto simp: parse_subsection_def L_def split: if_splits)
  obtain r2 spos st2
    where nt: "parse_ntbs (Some (map vendor_name [0..<128])) 128 4 L st1 = (r2, spos, st2)"
    by (cases "parse_ntbs (Some (map vendor_name [0..<128])) 128 4 L st1")
  note c = parse_ntbs_cursor [OF nt]
  from assms rd ok nt obtain name where r2: "r2 = Inr name"
    by (cases r2) (auto simp: parse_subsection_def L_def)
  show ?thesis
  proof (cases "strcmp_eq name aeabi")
    case True
    obtain r3 spos' st3
      where sub: "parse_eabi_attr_aeabi_subsection spos L wchar_size st2 = (r3, spos', st3)"
      by (cases "parse_eabi_attr_aeabi_subsection spos L wchar_size st2")
    with assms rd ok nt r2 True have "pos' = pos + spos'"
      by (cases r3) (auto simp: parse_subsection_def L_def)
    with parse_eabi_attr_aeabi_subsection_cursor [OF sub] c show ?thesis
      by simp
  next
    case False
    have "offset st1 = offset st + 4"
      using rd ok fd_read_offset [of 4 st] by simp
    then have "0 \<le> int (offset st2) + (int L - int spos)"
      using c by linarith
    then obtain st3 where "lseek_cur (int L - int spos) st2 = Some st3"
      by (auto simp: lseek_cur_def)
    with assms rd ok nt r2 False show ?thesis
      by (simp add: parse_subsection_def L_def)
  qed
qed

function section_loop ::
  "(nat \<Rightarrow> nat \<Rightarrow> u8) \<Rightarrow> nat \<Rightarrow> nat \<Rightarrow> u8 \<Rightarrow> fd_state \<Rightarrow> (error + unit) \<times> fd_state" where
  "section_loop vendor_name pos sh_size wchar_size st =
     (if pos < sh_size then
        (case parse_subsection (vendor_name pos) pos sh_size wchar_size st of
           (Inl e, st') \<Rightarrow> (Inl e, st')
         | (Inr pos', st') \<Rightarrow> section_loop vendor_name pos' sh_size wchar_size st')
      else (Inr (), st))"
  by pat_completeness auto
termination
proof (relation "measure (\<lambda>(vendor_name, pos, sh_size, wchar_size, st). sh_size - pos)")
  show "wf (measure (\<lambda>(vendor_name, pos, sh_size, wchar_size, st). sh_size - pos))"
    by simp
next
  fix vendor_name :: "nat \<Rightarrow> nat \<Rightarrow> u8" and pos sh_size :: nat and wchar_size :: u8
    and st :: fd_state and x st' pos'
  assume lt: "pos < sh_size"
    and p: "(x, st') = parse_subsection (vendor_name pos) pos sh_size wchar_size st"
      "x = Inr pos'"
  from p have "parse_subsection (vendor_name pos) pos sh_size wchar_size st = (Inr pos', st')"
    by simp
  from parse_subsection_advances [OF this] lt
  show "((vendor_name, pos', sh_size, wchar_size, st'), (vendor_name, pos, sh_size, wchar_size, st))
          \<in> measure (\<lambda>(vendor_name, pos, sh_size, wchar_size, st). sh_size - pos)"
    by auto
qed

declare section_loop.simps [simp del]

text \<open>
  \<^verbatim>\<open>parse_eabi_attr_section\<close>. \<open>vendor_name pos i\<close> is the byte at index \<open>i\<close> of the array
  \<^verbatim>\<open>vendor_name\<close> at the start of the turn of the loop that begins at \<open>pos\<close>: the array is
  declared in the loop body and not initialised.
\<close>

definition parse_eabi_attr_section ::
  "(nat \<Rightarrow> nat \<Rightarrow> u8) \<Rightarrow> nat \<Rightarrow> u8 \<Rightarrow> fd_state \<Rightarrow> (error + unit) \<times> fd_state" where
  "parse_eabi_attr_section vendor_name sh_size wchar_size st =
     (let st0 = (if sh_size < 1 then printf Empty_section st else st) in
      case fd_read 1 st0 of (bs, st1) \<Rightarrow>
        if length bs \<noteq> 1 then (Inl Reading_version, st1)
        else if bs ! 0 \<noteq> 0x41 then (Inl (Unknown_version (bs ! 0)), st1)
        else section_loop vendor_name 1 sh_size wchar_size st1)"

text \<open>
  The same loop with a count of its turns: \<open>None\<close> when the loop is still running after
  \<open>n\<close> tests of its condition.
\<close>

fun section_loop_turns ::
  "nat \<Rightarrow> (nat \<Rightarrow> nat \<Rightarrow> u8) \<Rightarrow> nat \<Rightarrow> nat \<Rightarrow> u8 \<Rightarrow> fd_state
     \<Rightarrow> ((error + unit) \<times> fd_state) option" where
  "section_loop_turns 0 vendor_name pos sh_size wchar_size st = None"
| "section_loop_turns (Suc n) vendor_name pos sh_size wchar_size st =
     (if pos < sh_size then
        (case parse_subsection (vendor_name pos) pos sh_size wchar_size st of
           (Inl e, st') \<Rightarrow> Some (Inl e, st')
         | (Inr pos', st') \<Rightarrow> section_loop_turns n vendor_name pos' sh_size wchar_size st')
      else Some (Inr (), st))"

section \<open>The command line\<close>

text \<open>
  \<^verbatim>\<open>main\<close> up to its last statement \<^verbatim>\<open>return process(argv[1], (char)wchar_size)\<close>, where the
  file is opened: either \<^verbatim>\<open>main\<close> returns before, or \<^verbatim>\<open>process\<close> is called with the file
  name and the byte \<^verbatim>\<open>(char)wchar_size\<close>. \<open>argv\<close> holds all \<^verbatim>\<open>argc\<close> arguments, the program
  name first. \<open>scanned\<close> is the outcome of \<^verbatim>\<open>sscanf(argv[2], "%d", &wchar_size)\<close>: \<open>None\<close>
  when it does not return 1, the \<^verbatim>\<open>int\<close> stored otherwise.
\<close>

datatype main_result = Exit int | Process string u8

definition main :: "string list \<Rightarrow> u32 option \<Rightarrow> main_result" where
  "main argv scanned =
     (if length argv < 2 \<or> 3 < length argv then Exit 1
      else if length argv = 3 then
        (case scanned of
           None \<Rightarrow> Exit 1
         | Some wchar_size \<Rightarrow>
             if 0x7f < sint wchar_size then Exit 1
             else Process (argv ! 1) (ucast wchar_size))
      else Process (argv ! 1) (ucast (- 1 :: u32)))"

section \<open>Notions of the specification\<close>

text \<open>
  The value of a ULEB128 encoding as the specification words it: the sum of each byte's
  low 7 bits shifted left by 7 times the index of the byte.
\<close>

definition uleb128_value :: "u8 list \<Rightarrow> nat" where
  "uleb128_value bs =
     sum_list (map (\<lambda>(i, b). push_bit (7 * i) (unat (b AND 0x7f))) (enumerate 0 bs))"

text \<open>A \<^verbatim>\<open>vendor_name\<close> array that holds zeros at the start of every turn.\<close>

definition zeroed :: "nat \<Rightarrow> nat \<Rightarrow> u8" where
  "zeroed pos i = 0"

text \<open>
  The attributes of a subsection as the specification lists them: tag 18 with its value
  in one byte, a tag followed by a ULEB128 number (continuation bytes, then a last byte),
  and a tag followed by a string and its terminating zero. \<open>attribute_bytes\<close> is the
  encoding of an attribute in the file.
\<close>

datatype attribute = Wchar u8 | Number u8 "u8 list" u8 | Text u8 "u8 list"

fun attribute_bytes :: "attribute \<Rightarrow> u8 list" where
  "attribute_bytes (Wchar b) = [0x12, b]"
| "attribute_bytes (Number t cs p) = t # cs @ [p]"
| "attribute_bytes (Text t name) = t # name @ [0]"

text \<open>
  The tags whose payload is a string: 4, 5, 67 and 32, and the odd tags above 32. An
  attribute is well formed when its tag fits one byte, its payload has the form that
  belongs to the tag, and the value of tag 18 is at most \<open>0x7f\<close>.
\<close>

definition payload_is_ntbs :: "u64 \<Rightarrow> bool" where
  "payload_is_ntbs attr \<longleftrightarrow>
     attr = 4 \<or> attr = 5 \<or> attr = 67 \<or> attr = 32 \<or> (32 < attr \<and> attr mod 2 \<noteq> 0)"

fun well_formed :: "attribute \<Rightarrow> bool" where
  "well_formed (Wchar b) \<longleftrightarrow> b \<le> 0x7f"
| "well_formed (Number t cs p) \<longleftrightarrow>
     t \<le> 0x7f \<and> ucast t \<noteq> (18 :: u64) \<and> \<not> payload_is_ntbs (ucast t)
     \<and> (\<forall>c \<in> set cs. c AND 0x80 \<noteq> 0) \<and> p AND 0x80 = 0"
| "well_formed (Text t name) \<longleftrightarrow> t \<le> 0x7f \<and> payload_is_ntbs (ucast t) \<and> 0 \<notin> set name"

text \<open>
  What a run with the replacement value \<open>w\<close> is expected to do with an attribute: the value
  of tag 18 becomes \<open>w\<close> when \<open>w\<close> is not negative, and the run prints the value it found,
  followed by the replacement or by a newline. Every other attribute is left alone and
  prints nothing.
\<close>

fun patched :: "u8 \<Rightarrow> attribute \<Rightarrow> attribute" where
  "patched w (Wchar b) = (if 0 \<le> sint w then Wchar w else Wchar b)"
| "patched w a = a"

fun reported :: "u8 \<Rightarrow> attribute \<Rightarrow> event list" where
  "reported w (Wchar b) =
     (if 0 \<le> sint w then [Tag_value (ucast b), Patched_to (sint w)]
      else [Tag_value (ucast b), Newline])"
| "reported w a = []"

section \<open>Facts about bytes, words and single reads\<close>

lemma low7_take_bit: "(b :: u8) AND 0x7f = take_bit 7 b"
proof -
  have "(0x7f :: u8) = mask 7"
    by (simp add: mask_eq_exp_minus_1)
  then show ?thesis
    by (simp add: take_bit_eq_mask)
qed

lemma low7_less: "unat ((b :: u8) AND 0x7f) < 128"
proof -
  have "unat (take_bit 7 b) < 2 ^ 7"
    using take_bit_nat_less_exp [of 7 "unat b"] by (simp add: unsigned_take_bit_eq)
  then show ?thesis
    by (simp add: low7_take_bit)
qed

lemma take_bit_7_small: "t \<le> 0x7f \<Longrightarrow> take_bit 7 (t :: u8) = t"
proof -
  assume "t \<le> 0x7f"
  then have "unat t < 2 ^ 7"
    by (simp add: word_le_nat_alt)
  then have "take_bit 7 (unat t) = unat t"
    by (simp add: take_bit_nat_eq_self_iff)
  then show "take_bit 7 t = t"
    by (metis unsigned_take_bit_eq word_unat_eq_iff)
qed

lemma continuation_bit_clear: "t \<le> 0x7f \<Longrightarrow> (t :: u8) AND 0x80 = 0"
proof -
  assume "t \<le> 0x7f"
  then have "take_bit 7 t = t"
    by (rule take_bit_7_small)
  then have "\<not> bit t 7"
    by (metis bit_take_bit_iff less_irrefl)
  have p: "(0x80 :: u8) = push_bit 7 1"
    by simp
  show ?thesis
  proof (rule bit_word_eqI)
    fix n
    assume "n < LENGTH(8)"
    then have "n < 7 \<or> n = 7"
      by auto
    with \<open>\<not> bit t 7\<close> show "bit (t AND 0x80) n = bit (0 :: u8) n"
      unfolding p by (auto simp: bit_simps simp del: push_bit_of_1)
  qed
qed

lemma unat_shl_int:
  assumes "s < 32" "push_bit s (unat (b AND 0x7f)) < (2::nat) ^ 31"
  shows "unat (shl_int b s) = push_bit s (unat (b AND 0x7f))"
proof -
  define n where "n = unat (b AND 0x7f)"
  define p where "p = push_bit s (ucast (b AND 0x7f) :: u32)"
  have un: "unat (ucast (b AND 0x7f) :: u32) = n"
    using unsigned_less [of "b AND 0x7f", where ?'a = nat]
    by (simp add: n_def unsigned_ucast_eq take_bit_nat_eq_self_iff)
  have "unat p = take_bit 32 (push_bit s n)"
    unfolding p_def by (simp add: unsigned_push_bit_eq un)
  also have "\<dots> = push_bit s n"
    using assms(2) by (simp add: take_bit_nat_eq_self_iff n_def)
  finally have up: "unat p = push_bit s n" .
  then have "uint p = int (push_bit s n)"
    by (metis uint_nat)
  moreover have "int (push_bit s n) < 2 ^ 31"
    using assms(2) unfolding n_def by (metis of_nat_less_numeral_power_cancel_iff)
  ultimately have "sint p = int (push_bit s n)"
    by (simp add: sint_uint signed_take_bit_int_eq_self)
  then have "(scast p :: u64) = word_of_int (int (push_bit s n))"
    by (simp add: scast_eq)
  then have "unat (scast p :: u64) = take_bit 64 (push_bit s n)"
    by (simp add: unat_of_nat take_bit_eq_mod)
  also have "\<dots> = push_bit s n"
    using assms(2) by (simp add: take_bit_nat_eq_self_iff n_def)
  finally show ?thesis
    using assms(1) by (simp add: shl_int_def p_def n_def)
qed

lemma or_push_bit_nat:
  fixes a :: nat
  assumes "a < 2 ^ s"
  shows "a OR push_bit s m = a + push_bit s m"
proof -
  have "take_bit s a = a"
    using assms by (simp add: take_bit_nat_eq_self_iff)
  then have "\<not> bit a n \<or> \<not> bit (push_bit s m) n" for n
    by (metis bit_push_bit_iff bit_take_bit_iff not_le)
  then show ?thesis
    by (simp add: disjunctive_add)
qed

lemma uleb128_or_exact:
  assumes "unat result < 2 ^ (7 * k)"
    and "\<forall>(i, b) \<in> set (enumerate k bs).
           7 * i < 32 \<and> push_bit (7 * i) (unat (b AND 0x7f)) < (2::nat) ^ 31"
  shows "unat (uleb128_or (7 * k) result bs) =
           unat result
           + sum_list (map (\<lambda>(i, b). push_bit (7 * i) (unat (b AND 0x7f))) (enumerate k bs))"
  using assms
proof (induction bs arbitrary: k result)
  case Nil
  then show ?case by simp
next
  case (Cons b bs)
  define r where "r = result OR shl_int b (7 * k)"
  from Cons.prems(2) have fit: "7 * k < 32" "push_bit (7 * k) (unat (b AND 0x7f)) < (2::nat) ^ 31"
    by simp_all
  have sh: "unat (shl_int b (7 * k)) = push_bit (7 * k) (unat (b AND 0x7f))"
    using fit by (rule unat_shl_int)
  have ur: "unat r = unat result + push_bit (7 * k) (unat (b AND 0x7f))"
    using Cons.prems(1) by (simp add: r_def unsigned_or_eq sh or_push_bit_nat)
  have m: "unat (b AND 0x7f) * 2 ^ (7 * k) \<le> 127 * 2 ^ (7 * k)"
    by (rule mult_le_mono1) (use low7_less [of b] in simp)
  have "unat r < 128 * 2 ^ (7 * k)"
    unfolding ur push_bit_eq_mult using Cons.prems(1) m by linarith
  then have "unat r < 2 ^ (7 * Suc k)"
    by (simp add: power_add)
  moreover from Cons.prems(2)
  have "\<forall>(i, b) \<in> set (enumerate (Suc k) bs).
           7 * i < 32 \<and> push_bit (7 * i) (unat (b AND 0x7f)) < (2::nat) ^ 31"
    by simp
  ultimately have ih: "unat (uleb128_or (7 * Suc k) r bs) =
           unat r
           + sum_list (map (\<lambda>(i, b). push_bit (7 * i) (unat (b AND 0x7f))) (enumerate (Suc k) bs))"
    by (rule Cons.IH)
  have step: "uleb128_or (7 * k) result (b # bs) = uleb128_or (7 * Suc k) r bs"
    unfolding r_def by (simp add: ac_simps)
  show ?case
    unfolding step ih ur by simp
qed

lemma fd_read_head:
  "drop (offset st) (contents st) = b # rest \<Longrightarrow>
     fd_read 1 st = ([b], st\<lparr>offset := offset st + 1\<rparr>)"
  by (simp add: fd_read_def Let_def)

lemma drop_step:
  "drop n xs = b # rest \<Longrightarrow> drop (n + 1) xs = rest"
  by (metis Suc_eq_plus1 drop_Suc list.sel(3) tl_drop)

lemma uleb128_loop_decodes:
  assumes "drop (offset st) (contents st) = cs @ t # rest"
    and "\<forall>c \<in> set cs. c AND 0x80 \<noteq> 0"
    and "t AND 0x80 = 0"
    and "pos + length cs < sz"
  shows "uleb128_loop shift result pos sz st =
           (Inr (uleb128_or shift result (cs @ [t])), pos + length cs + 1,
            st\<lparr>offset := offset st + length cs + 1\<rparr>)"
  using assms
proof (induction cs arbitrary: shift result pos st)
  case Nil
  then have "fd_read 1 st = ([t], st\<lparr>offset := offset st + 1\<rparr>)"
    using fd_read_head [of st t rest] by simp
  with Nil show ?case
    by (simp add: uleb128_loop.simps [of shift result pos sz st])
next
  case (Cons c cs)
  define st1 where "st1 = st\<lparr>offset := offset st + 1\<rparr>"
  from Cons.prems(1) have rd: "fd_read 1 st = ([c], st1)"
    using fd_read_head [of st c "cs @ t # rest"] by (simp add: st1_def)
  from Cons.prems(1) have "drop (offset st1) (contents st1) = cs @ t # rest"
    using drop_step [of "offset st" "contents st" c "cs @ t # rest"] by (simp add: st1_def)
  moreover from Cons.prems have "\<forall>c \<in> set cs. c AND 0x80 \<noteq> 0" "t AND 0x80 = 0"
    "pos + 1 + length cs < sz"
    by simp_all
  ultimately have "uleb128_loop (shift + 7) (result OR shl_int c shift) (pos + 1) sz st1 =
           (Inr (uleb128_or (shift + 7) (result OR shl_int c shift) (cs @ [t])),
            pos + 1 + length cs + 1, st1\<lparr>offset := offset st1 + length cs + 1\<rparr>)"
    by (rule Cons.IH)
  with Cons.prems rd show ?case
    by (simp add: uleb128_loop.simps [of shift result pos sz st] st1_def)
qed

lemma uleb128_fits:
  fixes t :: u8
  assumes "length cs \<le> 4" and "length cs = 4 \<longrightarrow> t < 8"
  shows "\<forall>(i, b) \<in> set (enumerate 0 (cs @ [t])).
           7 * i < 32 \<and> push_bit (7 * i) (unat (b AND 0x7f)) < (2::nat) ^ 31"
proof -
  have "7 * i < 32 \<and> push_bit (7 * i) (unat (b AND 0x7f)) < (2::nat) ^ 31"
    if "i < length (cs @ [t])" "b = (cs @ [t]) ! i" for i b
  proof (cases "i = 4")
    case True
    with that assms have "b = t" "t < 8"
      by (simp_all add: nth_append)
    have "unat (b AND 0x7f) \<le> unat b"
      by (simp add: word_and_le2 word_le_nat_alt [symmetric])
    also have "\<dots> < 8"
      using \<open>b = t\<close> \<open>t < 8\<close> by (simp add: word_less_nat_alt)
    finally show ?thesis
      using True by (simp add: push_bit_eq_mult)
  next
    case False
    with that assms have "i \<in> {0, 1, 2, 3}"
      by auto
    with low7_less [of b] show ?thesis
      by (auto simp: push_bit_eq_mult)
  qed
  then show ?thesis
    by (auto simp: in_set_enumerate_eq)
qed

lemma shl_int_single: "t \<le> 0x7f \<Longrightarrow> shl_int t 0 = ucast t"
proof -
  assume le: "t \<le> 0x7f"
  then have t: "t AND 0x7f = t"
    by (simp add: low7_take_bit take_bit_7_small)
  from le have "unat t < 128"
    by (simp add: word_le_nat_alt)
  then have "unat (shl_int t 0) = unat t"
    using unat_shl_int [of 0 t] by (simp add: t)
  moreover have "unat (ucast t :: u64) = unat t"
    using unsigned_less [of t, where ?'a = nat]
    by (simp add: unsigned_ucast_eq take_bit_nat_eq_self_iff)
  ultimately show ?thesis
    by (simp add: word_unat_eq_iff)
qed

lemma nonneg_char: "0 \<le> sint (w :: u8) \<Longrightarrow> w \<le> 0x7f"
proof -
  assume nn: "0 \<le> sint w"
  have lt: "sint w < 128"
    using sint_less [of w] by simp
  have "uint (word_of_int (sint w) :: u8) = take_bit 8 (sint w)"
    by (simp only: uint_word_of_int_eq) simp
  then have "uint w = take_bit 8 (sint w)"
    by simp
  also have "\<dots> = sint w"
    using nn lt by (simp add: take_bit_int_eq_self)
  finally have "uint w < 128"
    using lt by simp
  then show "w \<le> 0x7f"
    by (simp add: word_le_def)
qed

lemma drop_two_length:
  assumes "drop n xs = a # b # rest"
  shows "n + 1 < length xs"
proof -
  from assms have "length (drop n xs) = Suc (Suc (length rest))"
    by simp
  then show ?thesis
    by simp
qed

lemma drop_update_second:
  "drop n xs = a # b # rest \<Longrightarrow> drop n (xs[n + 1 := w]) = a # w # rest"
proof -
  assume d: "drop n xs = a # b # rest"
  have "drop n (xs[n + 1 := w]) = (drop n xs)[1 := w]"
    by (simp add: drop_update_swap)
  with d show ?thesis
    by simp
qed

lemma unat_ucast_byte: "unat (ucast (v :: u8) :: u64) = unat v"
  using unsigned_less [of v, where ?'a = nat]
  by (simp add: unsigned_ucast_eq take_bit_nat_eq_self_iff)

lemma ucast_byte_small: "v \<le> 0x7f \<Longrightarrow> \<not> 0x7f < (ucast (v :: u8) :: u64)"
  by (simp add: word_le_nat_alt word_less_nat_alt unat_ucast_byte)

lemma parse_uleb128_single:
  assumes "drop (offset st) (contents st) = t # rest" and "t \<le> 0x7f" and "pos < sz"
  shows "parse_uleb128 pos sz st = (Inr (ucast t), pos + 1, st\<lparr>offset := offset st + 1\<rparr>)"
  using uleb128_loop_decodes [of st "[]" t rest pos sz 0 0] assms
  by (simp add: parse_uleb128_def shl_int_single continuation_bit_clear)

lemma tag_abi_pcs_wchar_t_patches:
  assumes "drop (offset st) (contents st) = b # rest"
    and "b \<le> 0x7f"
    and "pos < sh_size"
    and "0 \<le> sint wchar_size"
  shows "tag_abi_pcs_wchar_t pos sh_size wchar_size st =
           (Inr (), pos + 1,
            st\<lparr>contents := (contents st)[offset st := wchar_size],
               offset := offset st + 1,
               printed := printed st @ [Tag_value (ucast b), Patched_to (sint wchar_size)]\<rparr>)"
proof -
  from assms(1) have "length (drop (offset st) (contents st)) = Suc (length rest)"
    by simp
  then have len: "offset st < length (contents st)"
    by simp
  note u = parse_uleb128_single [OF assms(1,2,3)]
  show ?thesis
    using assms(4) len ucast_byte_small [OF assms(2)]
    by (simp add: tag_abi_pcs_wchar_t_def u Let_def printf_def lseek_cur_def fd_write_def)
qed

lemma tag_abi_pcs_wchar_t_reports:
  assumes "drop (offset st) (contents st) = b # rest"
    and "b \<le> 0x7f"
    and "pos < sh_size"
    and "sint wchar_size < 0"
  shows "tag_abi_pcs_wchar_t pos sh_size wchar_size st =
           (Inr (), pos + 1,
            st\<lparr>offset := offset st + 1,
               printed := printed st @ [Tag_value (ucast b), Newline]\<rparr>)"
proof -
  note u = parse_uleb128_single [OF assms(1,2,3)]
  show ?thesis
    using assms(4)
    by (simp add: tag_abi_pcs_wchar_t_def u Let_def printf_def)
qed

section \<open>The vendor name of a subsection\<close>

text \<open>
  A name of fewer than 128 bytes that ends inside the subsection is read into the array
  whatever the array held before, and the comparison sees that name. The turn of the
  walker's loop is then the dispatcher's run for "aeabi", and for every other name the
  error after the (successful) seek.
\<close>

lemma ntbs_loop_captures:
  assumes "drop (offset st) (contents st) = name @ 0 # rest"
    and "0 \<notin> set name"
    and "pos + length name < sz"
    and "i + length name < length buf"
    and "result_size = length buf"
  shows "ntbs_loop (Some buf) result_size i pos sz st =
           (Inr (Some (take i buf @ name @ 0 # drop (i + length name + 1) buf)),
            pos + length name + 1, st\<lparr>offset := offset st + length name + 1\<rparr>)"
  using assms
proof (induction name arbitrary: i buf pos st)
  case Nil
  then have "fd_read 1 st = ([0], st\<lparr>offset := offset st + 1\<rparr>)"
    using fd_read_head [of st 0 rest] by simp
  with Nil show ?case
    by (subst ntbs_loop.simps) (simp add: upd_conv_take_nth_drop)
next
  case (Cons c cs)
  define st1 where "st1 = st\<lparr>offset := offset st + 1\<rparr>"
  from Cons.prems(1) have rd: "fd_read 1 st = ([c], st1)"
    using fd_read_head [of st c "cs @ 0 # rest"] by (simp add: st1_def)
  from Cons.prems(1) have d: "drop (offset st1) (contents st1) = cs @ 0 # rest"
    using drop_step [of "offset st" "contents st" c "cs @ 0 # rest"] by (simp add: st1_def)
  from Cons.prems have c0: "c \<noteq> 0" and n0: "0 \<notin> set cs"
    and p: "pos + 1 + length cs < sz" and i: "Suc i + length cs < length (buf[i := c])"
    and rs: "result_size = length (buf[i := c])" and ilt: "i < result_size"
    by auto
  have "ntbs_loop (Some (buf[i := c])) result_size (Suc i) (pos + 1) sz st1 =
          (Inr (Some (take (Suc i) (buf[i := c]) @ cs @ 0 # drop (Suc i + length cs + 1) (buf[i := c]))),
           pos + 1 + length cs + 1, st1\<lparr>offset := offset st1 + length cs + 1\<rparr>)"
    by (rule Cons.IH [OF d n0 p i rs])
  moreover have "take (Suc i) (buf[i := c]) = take i buf @ [c]"
    using ilt rs by (simp add: take_Suc_conv_app_nth)
  ultimately show ?case
    using Cons.prems rd c0 ilt
    by (subst ntbs_loop.simps) (simp add: st1_def)
qed

lemma takeWhile_update_after:
  assumes "0 \<notin> set name" and "length name \<le> k"
  shows "takeWhile (\<lambda>b. b \<noteq> 0) ((name @ (0 :: u8) # rest)[k := 0]) = name"
proof -
  have "(name @ 0 # rest)[k := 0] = name @ (0 # rest)[k - length name := 0]"
    using assms(2) by (simp add: list_update_append)
  moreover obtain rest' where "(0 # rest)[k - length name := 0] = 0 # rest'"
    by (cases "k - length name") simp_all
  ultimately have "(name @ 0 # rest)[k := 0] = name @ 0 # rest'"
    by simp
  moreover have "takeWhile (\<lambda>b. b \<noteq> 0) (name @ 0 # rest') = name @ takeWhile (\<lambda>b. b \<noteq> 0) (0 # rest')"
    using assms(1) by (intro takeWhile_append2) auto
  ultimately show ?thesis
    by simp
qed

lemma parse_ntbs_captures:
  assumes "drop (offset st) (contents st) = name @ 0 # rest"
    and "0 \<notin> set name"
    and "pos + length name < sz"
    and "length name < length buf"
  shows "\<exists>buf'. parse_ntbs (Some buf) (length buf) pos sz st =
           (Inr buf', pos + length name + 1, st\<lparr>offset := offset st + length name + 1\<rparr>)
         \<and> takeWhile (\<lambda>b. b \<noteq> 0) buf' = name"
proof -
  define b1 where "b1 = take 0 buf @ name @ 0 # drop (0 + length name + 1) buf"
  have l: "ntbs_loop (Some buf) (length buf) 0 pos sz st =
           (Inr (Some b1), pos + length name + 1, st\<lparr>offset := offset st + length name + 1\<rparr>)"
    unfolding b1_def using assms by (intro ntbs_loop_captures) simp_all
  have "takeWhile (\<lambda>b. b \<noteq> 0) (b1[length buf - 1 := 0]) = name"
    unfolding b1_def using assms(2,4) takeWhile_update_after [of name "length buf - 1"]
    by simp
  with l show ?thesis
    by (simp add: parse_ntbs_def)
qed

lemma fd_read_bytes:
  "drop (offset st) (contents st) = bs @ rest \<Longrightarrow>
     fd_read (length bs) st = (bs, st\<lparr>offset := offset st + length bs\<rparr>)"
  by (simp add: fd_read_def Let_def)

lemma drop_more:
  "drop n xs = bs @ rest \<Longrightarrow> drop (n + length bs) xs = rest"
  by (metis add.commute append_eq_conv_conj drop_drop)

lemma parse_subsection_after_name:
  assumes "fd_read 4 st = (len, st1)"
    and "length len = 4"
    and "unat (elf32_word len) = L"
    and "pos + 4 \<le> sh_size"
    and "pos + L \<le> sh_size"
    and "parse_ntbs (Some (map vendor_name [0..<128])) 128 4 L st1 = (Inr buf, spos, st2)"
  shows "parse_subsection vendor_name pos sh_size wchar_size st =
           (if strcmp_eq buf aeabi then
              (case parse_eabi_attr_aeabi_subsection spos L wchar_size st2 of
                 (Inl e, spos', st3) \<Rightarrow> (Inl e, st3)
               | (Inr u, spos', st3) \<Rightarrow> (Inr (pos + spos'), st3))
            else
              (case lseek_cur (int L - int spos) st2 of
                 Some st3 \<Rightarrow> (Inl Skipping_unknown_subsection, st3)
               | None \<Rightarrow> (Inr (pos + L), st2)))"
  using assms by (simp add: parse_subsection_def cong: option.case_cong)

lemma lseek_cur_forward:
  assumes "a \<le> b"
  shows "lseek_cur (int b - int a) st = Some (st\<lparr>offset := offset st + (b - a)\<rparr>)"
proof -
  have e: "int (offset st) + (int b - int a) = int (offset st + (b - a))"
    using assms by simp
  show ?thesis
    unfolding lseek_cur_def e by simp
qed

lemma parse_subsection_named:
  assumes "drop (offset st) (contents st) = len @ name @ 0 # rest"
    and "length len = 4"
    and "0 \<notin> set name"
    and "length name < 128"
    and "4 + length name < unat (elf32_word len)"
    and "pos + 4 \<le> sh_size"
    and "pos + unat (elf32_word len) \<le> sh_size"
  shows "parse_subsection vendor_name pos sh_size wchar_size st =
           (if name = aeabi then
              (case parse_eabi_attr_aeabi_subsection (4 + length name + 1) (unat (elf32_word len))
                      wchar_size (st\<lparr>offset := offset st + (4 + length name + 1)\<rparr>) of
                 (Inl e, spos', st3) \<Rightarrow> (Inl e, st3)
               | (Inr u, spos', st3) \<Rightarrow> (Inr (pos + spos'), st3))
            else (Inl Skipping_unknown_subsection,
                  st\<lparr>offset := offset st + unat (elf32_word len)\<rparr>))"
proof -
  define L where "L = unat (elf32_word len)"
  define spos where "spos = 4 + length name + 1"
  define st1 where "st1 = st\<lparr>offset := offset st + 4\<rparr>"
  define st2 where "st2 = st\<lparr>offset := offset st + spos\<rparr>"
  have Lgt: "spos \<le> L" and L: "unat (elf32_word len) = L" and pL: "pos + L \<le> sh_size"
    using assms(5,7) by (simp_all add: L_def spos_def)
  have rd: "fd_read 4 st = (len, st1)"
    using fd_read_bytes [OF assms(1)] assms(2) by (simp add: st1_def)
  have d1: "drop (offset st1) (contents st1) = name @ 0 # rest"
    using drop_more [OF assms(1)] assms(2) by (simp add: st1_def)
  obtain buf where nt0: "parse_ntbs (Some (map vendor_name [0..<128])) 128 4 L st1 =
      (Inr buf, 4 + length name + 1, st1\<lparr>offset := offset st1 + length name + 1\<rparr>)"
    and tw: "takeWhile (\<lambda>b. b \<noteq> 0) buf = name"
    using parse_ntbs_captures [OF d1 assms(3), of 4 L "map vendor_name [0..<128]"] assms(4) Lgt
    by (auto simp: spos_def)
  have "st1\<lparr>offset := offset st1 + length name + 1\<rparr> = st2"
    by (simp add: st1_def st2_def spos_def)
  with nt0 have nt: "parse_ntbs (Some (map vendor_name [0..<128])) 128 4 L st1 = (Inr buf, spos, st2)"
    by (simp only: spos_def)
  have sk: "lseek_cur (int L - int spos) st2 = Some (st\<lparr>offset := offset st + L\<rparr>)"
    using lseek_cur_forward [OF Lgt, of st2] Lgt by (simp add: st2_def)
  have sc: "strcmp_eq buf aeabi \<longleftrightarrow> name = aeabi"
    by (simp add: strcmp_eq_def tw)
  have "parse_subsection vendor_name pos sh_size wchar_size st =
           (if name = aeabi then
              (case parse_eabi_attr_aeabi_subsection spos L wchar_size st2 of
                 (Inl e, spos', st3) \<Rightarrow> (Inl e, st3)
               | (Inr u, spos', st3) \<Rightarrow> (Inr (pos + spos'), st3))
            else (Inl Skipping_unknown_subsection, st\<lparr>offset := offset st + L\<rparr>))"
    unfolding parse_subsection_after_name [OF rd assms(2) L assms(6) pL nt] sc sk
    by simp
  then show ?thesis
    unfolding L_def spos_def st2_def .
qed

lemma unknown_subsection_always_fails:
  assumes "drop (offset st) (contents st) = len @ name @ 0 # rest"
    and "length len = 4"
    and "0 \<notin> set name"
    and "length name < 128"
    and "4 + length name < unat (elf32_word len)"
    and "pos + unat (elf32_word len) \<le> sh_size"
    and "name \<noteq> aeabi"
  shows "section_loop vendor_name pos sh_size wchar_size st =
           (Inl Skipping_unknown_subsection, st\<lparr>offset := offset st + unat (elf32_word len)\<rparr>)"
proof -
  from assms(5,6) have le: "pos + 4 \<le> sh_size" and lt: "pos < sh_size"
    by simp_all
  have "parse_subsection (vendor_name pos) pos sh_size wchar_size st =
          (Inl Skipping_unknown_subsection, st\<lparr>offset := offset st + unat (elf32_word len)\<rparr>)"
    unfolding parse_subsection_named [OF assms(1-5) le assms(6)] using assms(7)
    by (simp only: if_False)
  with lt show ?thesis
    by (simp add: section_loop.simps [of vendor_name pos])
qed

section \<open>The file under the walker\<close>

text \<open>
  Whatever the input, a run of the walker leaves the length of the file as it was, and a
  read-only run (\<^verbatim>\<open>wchar_size < 0\<close>) leaves every byte as it was: the only write of the
  program replaces the byte before the descriptor, after at least one byte was read.
\<close>

lemma fd_write_in_file:
  assumes "offset st < length (contents st)"
  shows "contents (fd_write b st) = (contents st)[offset st := b]"
    and "length (contents (fd_write b st)) = length (contents st)"
    and "offset (fd_write b st) \<le> length (contents (fd_write b st))"
  using assms by (simp_all add: fd_write_def Let_def)

lemma tag_abi_pcs_wchar_t_file:
  assumes "tag_abi_pcs_wchar_t pos sh_size wchar_size st = (r, pos', st')"
    and "offset st \<le> length (contents st)"
  shows "length (contents st') = length (contents st)
         \<and> offset st' \<le> length (contents st')
         \<and> (sint wchar_size < 0 \<longrightarrow> contents st' = contents st)"
proof -
  obtain r1 p1 s1 where u: "parse_uleb128 pos sh_size st = (r1, p1, s1)"
    by (cases "parse_uleb128 pos sh_size st")
  from parse_uleb128_cursor [OF u] assms(2)
  have c: "contents s1 = contents st" "offset s1 \<le> length (contents s1)"
    by auto
  show ?thesis
  proof (cases r1)
    case (Inl e)
    with assms u c show ?thesis
      by (simp add: tag_abi_pcs_wchar_t_def)
  next
    case (Inr val)
    show ?thesis
    proof (cases "0 \<le> sint wchar_size")
      case False
      with assms u c Inr show ?thesis
        by (auto simp: tag_abi_pcs_wchar_t_def Let_def)
    next
      case True
      define s3 where "s3 = (if 0x7f < val then printf Old_value_too_big (printf (Tag_value val) s1)
                             else printf (Tag_value val) s1)"
      have o3: "offset s3 = offset s1" "contents s3 = contents s1"
        by (simp_all add: s3_def)
      show ?thesis
      proof (cases "lseek_cur (- 1) s3")
        case None
        with assms u Inr True have "st' = s3"
          by (simp add: tag_abi_pcs_wchar_t_def Let_def s3_def)
        with c o3 True show ?thesis by simp
      next
        case (Some s4)
        with assms u Inr True
        have st': "st' = printf (Patched_to (sint wchar_size)) (fd_write wchar_size s4)"
          by (simp add: tag_abi_pcs_wchar_t_def Let_def s3_def)
        from lseek_cur_fields [OF Some] o3 c
        have "offset s4 < length (contents s4)" "contents s4 = contents st"
          by simp_all
        with fd_write_in_file [of s4 wchar_size] True show ?thesis
          by (simp add: st')
      qed
    qed
  qed
qed

lemma attribute_switch_file:
  assumes "attribute_switch attr pos sh_size wchar_size st = (r, pos', st')"
    and "offset st \<le> length (contents st)"
  shows "length (contents st') = length (contents st)
         \<and> offset st' \<le> length (contents st')
         \<and> (sint wchar_size < 0 \<longrightarrow> contents st' = contents st)"
proof -
  consider
      (ntbs) res n where "status (parse_ntbs res n pos sh_size st) = (r, pos', st')"
    | (wchar) "tag_abi_pcs_wchar_t pos sh_size wchar_size st = (r, pos', st')"
    | (uleb) "status (parse_uleb128 pos sh_size st) = (r, pos', st')"
    using assms(1) by (auto simp: attribute_switch_def split: if_splits)
  then show ?thesis
  proof cases
    case ntbs
    from status_cursor [OF ntbs] obtain r0
      where "parse_ntbs res n pos sh_size st = (r0, pos', st')" by blast
    from parse_ntbs_cursor [OF this] assms(2) show ?thesis by auto
  next
    case wchar
    then show ?thesis using assms(2) by (rule tag_abi_pcs_wchar_t_file)
  next
    case uleb
    from status_cursor [OF uleb] obtain r0
      where "parse_uleb128 pos sh_size st = (r0, pos', st')" by blast
    from parse_uleb128_cursor [OF this] assms(2) show ?thesis by auto
  qed
qed

lemma parse_attribute_file:
  assumes "parse_attribute pos sh_size wchar_size st = (r, pos', st')"
    and "offset st \<le> length (contents st)"
  shows "length (contents st') = length (contents st)
         \<and> offset st' \<le> length (contents st')
         \<and> (sint wchar_size < 0 \<longrightarrow> contents st' = contents st)"
proof -
  obtain r1 p1 s1 where u: "parse_uleb128 pos sh_size st = (r1, p1, s1)"
    by (cases "parse_uleb128 pos sh_size st")
  from parse_uleb128_cursor [OF u] assms(2)
  have c: "contents s1 = contents st" "offset s1 \<le> length (contents s1)"
    by auto
  show ?thesis
  proof (cases r1)
    case (Inl e)
    with assms u c show ?thesis
      by (auto simp: parse_attribute_def)
  next
    case (Inr attr)
    with assms u have "attribute_switch attr p1 sh_size wchar_size s1 = (r, pos', st')"
      by (simp add: parse_attribute_def)
    from attribute_switch_file [OF this c(2)] c(1) show ?thesis
      by simp
  qed
qed

lemma aeabi_loop_file:
  "aeabi_loop pos sh_size wchar_size st = (r, pos', st') \<Longrightarrow>
   offset st \<le> length (contents st) \<Longrightarrow>
     length (contents st') = length (contents st)
     \<and> offset st' \<le> length (contents st')
     \<and> (sint wchar_size < 0 \<longrightarrow> contents st' = contents st)"
proof (induction pos sh_size wchar_size st rule: aeabi_loop.induct)
  case (1 pos sh_size wchar_size st)
  show ?case
  proof (cases "pos < sh_size")
    case False
    with "1.prems" show ?thesis
      by (simp add: aeabi_loop.simps)
  next
    case True
    obtain r1 p1 s1 where a: "parse_attribute pos sh_size wchar_size st = (r1, p1, s1)"
      by (cases "parse_attribute pos sh_size wchar_size st")
    note c = parse_attribute_file [OF a "1.prems"(2)]
    show ?thesis
    proof (cases r1)
      case (Inl e)
      with "1.prems" True a c show ?thesis
        by (simp add: aeabi_loop.simps [of pos sh_size wchar_size st])
    next
      case (Inr u)
      with "1.prems" True a have "aeabi_loop p1 sh_size wchar_size s1 = (r, pos', st')"
        by (simp add: aeabi_loop.simps [of pos sh_size wchar_size st])
      from "1.IH" [OF True a [symmetric] Inr refl this] c show ?thesis
        by auto
    qed
  qed
qed

lemma skip_identifiers_file:
  "skip_identifiers pos sh_size st = (r, pos', st') \<Longrightarrow>
   offset st \<le> length (contents st) \<Longrightarrow>
     contents st' = contents st \<and> offset st' \<le> length (contents st')"
proof (induction pos sh_size st rule: skip_identifiers.induct)
  case (1 pos sh_size st)
  obtain r1 p1 s1 where u: "parse_uleb128 pos sh_size st = (r1, p1, s1)"
    by (cases "parse_uleb128 pos sh_size st")
  from parse_uleb128_cursor [OF u] "1.prems"(2)
  have c: "contents s1 = contents st" "offset s1 \<le> length (contents s1)"
    by auto
  show ?case
  proof (cases r1)
    case (Inl e)
    with "1.prems" u c show ?thesis
      by (simp add: skip_identifiers.simps [of pos sh_size st])
  next
    case (Inr ident)
    show ?thesis
    proof (cases "ident = 0")
      case True
      with "1.prems" u c Inr show ?thesis
        by (simp add: skip_identifiers.simps [of pos sh_size st])
    next
      case False
      with "1.prems" u Inr have "skip_identifiers p1 sh_size s1 = (r, pos', st')"
        by (simp add: skip_identifiers.simps [of pos sh_size st])
      from "1.IH" [OF u [symmetric] Inr refl False this] c show ?thesis
        by auto
    qed
  qed
qed

lemma parse_eabi_attr_aeabi_subsection_file:
  assumes "parse_eabi_attr_aeabi_subsection pos sh_size wchar_size st = (r, pos', st')"
    and "offset st \<le> length (contents st)"
  shows "length (contents st') = length (contents st)
         \<and> offset st' \<le> length (contents st')
         \<and> (sint wchar_size < 0 \<longrightarrow> contents st' = contents st)"
proof (cases "sh_size < 1")
  case True
  with assms show ?thesis
    by (auto simp: parse_eabi_attr_aeabi_subsection_def)
next
  case False
  obtain bs st1 where rd: "fd_read 1 st = (bs, st1)"
    by (cases "fd_read 1 st")
  have st1: "contents st1 = contents st" "offset st1 \<le> length (contents st1)"
    using rd fd_read_contents [of 1 st] fd_read_in_file [of st 1] assms(2) by simp_all
  show ?thesis
  proof (cases "length bs \<noteq> 1")
    case True
    with assms False rd st1 show ?thesis
      by (auto simp: parse_eabi_attr_aeabi_subsection_def)
  next
    case len: False
    show ?thesis
    proof (cases "bs ! 0 = 2 \<or> bs ! 0 = 3")
      case False
      with assms \<open>\<not> sh_size < 1\<close> rd len
      have "aeabi_loop (pos + 1) sh_size wchar_size st1 = (r, pos', st')"
        by (simp add: parse_eabi_attr_aeabi_subsection_def)
      from aeabi_loop_file [OF this st1(2)] st1(1) show ?thesis
        by simp
    next
      case True
      obtain r2 p2 s2 where sk: "skip_identifiers (pos + 1) sh_size st1 = (r2, p2, s2)"
        by (cases "skip_identifiers (pos + 1) sh_size st1")
      note c2 = skip_identifiers_file [OF sk st1(2)]
      show ?thesis
      proof (cases r2)
        case (Inl e)
        with assms \<open>\<not> sh_size < 1\<close> rd len True sk c2 st1 show ?thesis
          by (auto simp: parse_eabi_attr_aeabi_subsection_def)
      next
        case (Inr u)
        with assms \<open>\<not> sh_size < 1\<close> rd len True sk
        have "aeabi_loop p2 sh_size wchar_size s2 = (r, pos', st')"
          by (auto simp: parse_eabi_attr_aeabi_subsection_def)
        from aeabi_loop_file [OF this] c2 st1 show ?thesis
          by auto
      qed
    qed
  qed
qed

lemma parse_subsection_file:
  assumes "parse_subsection vendor_name pos sh_size wchar_size st = (r, st')"
    and "offset st \<le> length (contents st)"
  shows "length (contents st') = length (contents st)
         \<and> ((\<exists>p. r = Inr p) \<longrightarrow> offset st' \<le> length (contents st'))
         \<and> (sint wchar_size < 0 \<longrightarrow> contents st' = contents st)"
proof (cases "sh_size < pos + 4")
  case True
  with assms show ?thesis
    by (auto simp: parse_subsection_def)
next
  case False
  obtain bs st1 where rd: "fd_read 4 st = (bs, st1)"
    by (cases "fd_read 4 st")
  have st1: "contents st1 = contents st" "offset st1 \<le> length (contents st1)"
    using rd fd_read_contents [of 4 st] fd_read_in_file [of st 4] assms(2) by simp_all
  define L where "L = unat (elf32_word bs)"
  show ?thesis
  proof (cases "length bs \<noteq> 4 \<or> sh_size < pos + L")
    case True
    with assms False rd have "st' = st1" "\<not> (\<exists>p. r = Inr p)"
      by (auto simp: parse_subsection_def L_def split: if_splits)
    with st1 show ?thesis
      by simp
  next
    case ok: False
    obtain r2 spos st2
      where nt: "parse_ntbs (Some (map vendor_name [0..<128])) 128 4 L st1 = (r2, spos, st2)"
      by (cases "parse_ntbs (Some (map vendor_name [0..<128])) 128 4 L st1")
    from parse_ntbs_cursor [OF nt] st1
    have st2: "contents st2 = contents st" "offset st2 \<le> length (contents st2)"
      by auto
    show ?thesis
    proof (cases r2)
      case (Inl e)
      with assms False rd ok nt st2 show ?thesis
        by (auto simp: parse_subsection_def L_def)
    next
      case (Inr name)
      show ?thesis
      proof (cases "strcmp_eq name aeabi")
        case True
        obtain r3 spos' st3
          where sub: "parse_eabi_attr_aeabi_subsection spos L wchar_size st2 = (r3, spos', st3)"
          by (cases "parse_eabi_attr_aeabi_subsection spos L wchar_size st2")
        from assms False rd ok nt Inr True sub have "st' = st3" "(\<exists>p. r = Inr p) \<longrightarrow> (\<exists>u. r3 = Inr u)"
          by (cases r3; auto simp: parse_subsection_def L_def)+
        with parse_eabi_attr_aeabi_subsection_file [OF sub st2(2)] st2(1) show ?thesis
          by auto
      next
        case no: False
        from assms False rd ok nt Inr no
        have "contents st' = contents st2" "\<not> (\<exists>p. r = Inr p) \<or> st' = st2"
          by (auto simp: parse_subsection_def L_def lseek_cur_def split: option.splits if_splits)
        with st2 show ?thesis
          by auto
      qed
    qed
  qed
qed

lemma section_loop_file:
  "section_loop vendor_name pos sh_size wchar_size st = (r, st') \<Longrightarrow>
   offset st \<le> length (contents st) \<Longrightarrow>
     length (contents st') = length (contents st)
     \<and> (sint wchar_size < 0 \<longrightarrow> contents st' = contents st)"
proof (induction vendor_name pos sh_size wchar_size st rule: section_loop.induct)
  case (1 vendor_name pos sh_size wchar_size st)
  show ?case
  proof (cases "pos < sh_size")
    case False
    with "1.prems" show ?thesis
      by (simp add: section_loop.simps)
  next
    case True
    obtain r1 s1
      where a: "parse_subsection (vendor_name pos) pos sh_size wchar_size st = (r1, s1)"
      by (cases "parse_subsection (vendor_name pos) pos sh_size wchar_size st")
    note c = parse_subsection_file [OF a "1.prems"(2)]
    show ?thesis
    proof (cases r1)
      case (Inl e)
      with "1.prems" True a c show ?thesis
        by (simp add: section_loop.simps [of vendor_name pos sh_size wchar_size st])
    next
      case (Inr p1)
      with "1.prems" True a
      have "section_loop vendor_name p1 sh_size wchar_size s1 = (r, st')"
        by (simp add: section_loop.simps [of vendor_name pos sh_size wchar_size st])
      from "1.IH" [OF True a [symmetric] Inr this] c Inr show ?thesis
        by auto
    qed
  qed
qed

lemma parse_eabi_attr_section_file:
  assumes "parse_eabi_attr_section vendor_name sh_size wchar_size st = (r, st')"
  shows "length (contents st') = length (contents st)
         \<and> (sint wchar_size < 0 \<longrightarrow> contents st' = contents st)"
proof -
  define st0 where "st0 = (if sh_size < 1 then printf Empty_section st else st)"
  have st0: "contents st0 = contents st" "offset st0 = offset st"
    by (simp_all add: st0_def)
  obtain bs st1 where rd: "fd_read 1 st0 = (bs, st1)"
    by (cases "fd_read 1 st0")
  have st1: "contents st1 = contents st"
    using rd fd_read_contents [of 1 st0] st0 by simp
  have unf: "parse_eabi_attr_section vendor_name sh_size wchar_size st =
               (if length bs \<noteq> 1 then (Inl Reading_version, st1)
                else if bs ! 0 \<noteq> 0x41 then (Inl (Unknown_version (bs ! 0)), st1)
                else section_loop vendor_name 1 sh_size wchar_size st1)"
    unfolding parse_eabi_attr_section_def Let_def st0_def [symmetric] rd by simp
  show ?thesis
  proof (cases "length bs \<noteq> 1 \<or> bs ! 0 \<noteq> 0x41")
    case True
    with assms unf have "st' = st1"
      by (auto split: if_splits)
    with st1 show ?thesis
      by simp
  next
    case False
    with assms unf have l: "section_loop vendor_name 1 sh_size wchar_size st1 = (r, st')"
      by simp
    from False rd have "offset st0 < length (contents st0)"
      by (auto simp: fd_read_def Let_def)
    with rd fd_read_in_file [of st0 1] have "offset st1 \<le> length (contents st1)"
      by simp
    from section_loop_file [OF l this] st1 show ?thesis
      by simp
  qed
qed

section \<open>One subsection of well-formed attributes\<close>

text \<open>
  The walker on a section that holds the version byte and one \<^verbatim>\<open>aeabi\<close> subsection whose
  attributes are well formed: it succeeds, consumes the section, rewrites the value of
  every tag 18 when a replacement is given, and changes nothing else. Run again in
  read-only mode on the file it leaves, it reports the replacement.
\<close>

lemma parse_attribute_at_tag_18:
  assumes "drop (offset st) (contents st) = 0x12 # rest" and "pos < sh_size"
  shows "parse_attribute pos sh_size wchar_size st =
           tag_abi_pcs_wchar_t (pos + 1) sh_size wchar_size (st\<lparr>offset := offset st + 1\<rparr>)"
  using parse_uleb128_single [of st "0x12" rest pos sh_size] assms
  by (simp add: parse_attribute_def attribute_switch_def)

lemma parse_attribute_patches:
  assumes "drop (offset st) (contents st) = 0x12 # b # rest"
    and "b \<le> 0x7f"
    and "pos + 1 < sh_size"
    and "0 \<le> sint wchar_size"
  shows "parse_attribute pos sh_size wchar_size st =
           (Inr (), pos + 2,
            st\<lparr>contents := (contents st)[offset st + 1 := wchar_size],
               offset := offset st + 2,
               printed := printed st @ [Tag_value (ucast b), Patched_to (sint wchar_size)]\<rparr>)"
proof -
  define st1 where "st1 = st\<lparr>offset := offset st + 1\<rparr>"
  have d1: "drop (offset st1) (contents st1) = b # rest"
    using assms(1) drop_step [of "offset st" "contents st"] by (simp add: st1_def)
  have "parse_attribute pos sh_size wchar_size st =
          tag_abi_pcs_wchar_t (pos + 1) sh_size wchar_size st1"
    using parse_attribute_at_tag_18 [OF assms(1)] assms(3) by (simp add: st1_def)
  also have "\<dots> =
           (Inr (), pos + 1 + 1,
            st1\<lparr>contents := (contents st1)[offset st1 := wchar_size],
                offset := offset st1 + 1,
                printed := printed st1 @ [Tag_value (ucast b), Patched_to (sint wchar_size)]\<rparr>)"
    by (rule tag_abi_pcs_wchar_t_patches [OF d1 assms(2) assms(3) assms(4)])
  also have "\<dots> =
           (Inr (), pos + 2,
            st\<lparr>contents := (contents st)[offset st + 1 := wchar_size],
               offset := offset st + 2,
               printed := printed st @ [Tag_value (ucast b), Patched_to (sint wchar_size)]\<rparr>)"
    by (simp add: st1_def)
  finally show ?thesis .
qed

lemma parse_attribute_reports:
  assumes "drop (offset st) (contents st) = 0x12 # b # rest"
    and "b \<le> 0x7f"
    and "pos + 1 < sh_size"
    and "sint wchar_size < 0"
  shows "parse_attribute pos sh_size wchar_size st =
           (Inr (), pos + 2,
            st\<lparr>offset := offset st + 2,
               printed := printed st @ [Tag_value (ucast b), Newline]\<rparr>)"
proof -
  define st1 where "st1 = st\<lparr>offset := offset st + 1\<rparr>"
  have d1: "drop (offset st1) (contents st1) = b # rest"
    using assms(1) drop_step [of "offset st" "contents st"] by (simp add: st1_def)
  have "parse_attribute pos sh_size wchar_size st =
          tag_abi_pcs_wchar_t (pos + 1) sh_size wchar_size st1"
    using parse_attribute_at_tag_18 [OF assms(1)] assms(3) by (simp add: st1_def)
  also have "\<dots> =
           (Inr (), pos + 1 + 1,
            st1\<lparr>offset := offset st1 + 1,
                printed := printed st1 @ [Tag_value (ucast b), Newline]\<rparr>)"
    by (rule tag_abi_pcs_wchar_t_reports [OF d1 assms(2) assms(3) assms(4)])
  also have "\<dots> =
           (Inr (), pos + 2,
            st\<lparr>offset := offset st + 2,
               printed := printed st @ [Tag_value (ucast b), Newline]\<rparr>)"
    by (simp add: st1_def)
  finally show ?thesis .
qed

lemma aeabi_loop_ends_at_size:
  "aeabi_loop pos sh_size wchar_size st = (Inr u, pos', st') \<Longrightarrow> sh_size \<le> pos'"
proof (induction pos sh_size wchar_size st rule: aeabi_loop.induct)
  case (1 pos sh_size wchar_size st)
  show ?case
  proof (cases "pos < sh_size")
    case False
    with "1.prems" show ?thesis
      by (simp add: aeabi_loop.simps)
  next
    case True
    obtain r1 p1 s1 where a: "parse_attribute pos sh_size wchar_size st = (r1, p1, s1)"
      by (cases "parse_attribute pos sh_size wchar_size st")
    show ?thesis
    proof (cases r1)
      case (Inl e)
      with "1.prems" True a show ?thesis
        by (simp add: aeabi_loop.simps [of pos sh_size wchar_size st])
    next
      case (Inr v)
      with "1.prems" True a have "aeabi_loop p1 sh_size wchar_size s1 = (Inr u, pos', st')"
        by (simp add: aeabi_loop.simps [of pos sh_size wchar_size st])
      from "1.IH" [OF True a [symmetric] Inr refl this] show ?thesis .
    qed
  qed
qed

lemma section_of_one_aeabi_subsection:
  assumes "drop (offset st) (contents st) = 0x41 # len @ aeabi @ 0 # ind # body"
    and "length len = 4"
    and "10 < unat (elf32_word len)"
    and "sh_size = 1 + unat (elf32_word len)"
    and "ind \<noteq> 2" and "ind \<noteq> 3"
  shows "parse_eabi_attr_section vendor_name sh_size wchar_size st =
           (case aeabi_loop 11 (unat (elf32_word len)) wchar_size
                   (st\<lparr>offset := offset st + 12\<rparr>) of
              (Inl e, pos', st') \<Rightarrow> (Inl e, st')
            | (Inr u, pos', st') \<Rightarrow> (Inr (), st'))"
proof -
  define L where "L = unat (elf32_word len)"
  define st1 where "st1 = st\<lparr>offset := offset st + 1\<rparr>"
  define st10 where "st10 = st1\<lparr>offset := offset st1 + (4 + length aeabi + 1)\<rparr>"
  define st11 where "st11 = st\<lparr>offset := offset st + 12\<rparr>"
  have L: "10 < L" "sh_size = 1 + L"
    using assms(3,4) by (simp_all add: L_def)
  have rd: "fd_read 1 st = ([0x41], st1)"
    using fd_read_head [OF assms(1)] by (simp add: st1_def)
  have d1: "drop (offset st1) (contents st1) = len @ aeabi @ 0 # ind # body"
    using drop_step [OF assms(1)] by (simp add: st1_def)
  have top: "parse_eabi_attr_section vendor_name sh_size wchar_size st =
               section_loop vendor_name 1 sh_size wchar_size st1"
    using L rd by (simp add: parse_eabi_attr_section_def)
  have z: "0 \<notin> set aeabi" "length aeabi = 5"
    by (simp_all add: aeabi_def)
  have sub: "parse_subsection (vendor_name 1) 1 sh_size wchar_size st1 =
           (case parse_eabi_attr_aeabi_subsection (4 + length aeabi + 1) L wchar_size st10 of
              (Inl e, spos', st3) \<Rightarrow> (Inl e, st3)
            | (Inr u, spos', st3) \<Rightarrow> (Inr (1 + spos'), st3))"
    using parse_subsection_named [OF d1 assms(2) z(1), of 1 sh_size "vendor_name 1" wchar_size] L z(2)
    by (simp add: L_def st10_def)
  have d10: "drop (offset st10) (contents st10) = ind # body"
    using drop_more [OF d1] drop_more [of "offset st1 + length len" "contents st1" "aeabi @ [0]" "ind # body"]
      assms(2) z(2)
    by (simp add: st10_def add.assoc)
  have rd10: "fd_read 1 st10 = ([ind], st11)"
    using fd_read_head [OF d10] z(2) by (simp add: st10_def st1_def st11_def)
  have disp: "parse_eabi_attr_aeabi_subsection (4 + length aeabi + 1) L wchar_size st10 =
                aeabi_loop 11 L wchar_size st11"
    using L rd10 assms(5,6) z(2) by (simp add: parse_eabi_attr_aeabi_subsection_def)
  have loop1: "section_loop vendor_name 1 sh_size wchar_size st1 =
                 (case parse_subsection (vendor_name 1) 1 sh_size wchar_size st1 of
                    (Inl e, st') \<Rightarrow> (Inl e, st')
                  | (Inr pos', st') \<Rightarrow> section_loop vendor_name pos' sh_size wchar_size st')"
    using L by (subst section_loop.simps) simp
  have loop2: "section_loop vendor_name (1 + L) sh_size wchar_size s = (Inr (), s)" for s
    using L by (subst section_loop.simps) simp
  obtain r p s where lp: "aeabi_loop 11 L wchar_size st11 = (r, p, s)"
    by (cases "aeabi_loop 11 L wchar_size st11")
  have "parse_eabi_attr_section vendor_name sh_size wchar_size st =
           (case aeabi_loop 11 L wchar_size st11 of
              (Inl e, pos', st') \<Rightarrow> (Inl e, st')
            | (Inr u, pos', st') \<Rightarrow> (Inr (), st'))"
  proof (cases r)
    case (Inl e)
    show ?thesis
      unfolding top loop1 sub disp lp Inl by simp
  next
    case (Inr u)
    with lp have "L \<le> p"
      using aeabi_loop_ends_at_size by blast
    moreover from aeabi_loop_cursor [OF lp] L have "p \<le> L"
      by simp
    ultimately have "p = L"
      by simp
    show ?thesis
      unfolding top loop1 sub disp lp Inr \<open>p = L\<close> using loop2 [of s] by simp
  qed
  then show ?thesis
    unfolding L_def st11_def .
qed

lemma ntbs_loop_skips:
  assumes "drop (offset st) (contents st) = name @ 0 # rest"
    and "0 \<notin> set name"
    and "pos + length name < sz"
  shows "\<exists>r. ntbs_loop result result_size i pos sz st =
           (Inr r, pos + length name + 1, st\<lparr>offset := offset st + length name + 1\<rparr>)"
  using assms
proof (induction name arbitrary: result i pos st)
  case Nil
  then have "fd_read 1 st = ([0], st\<lparr>offset := offset st + 1\<rparr>)"
    using fd_read_head [of st 0 rest] by simp
  with Nil show ?case
    by (subst ntbs_loop.simps) simp
next
  case (Cons c cs)
  define st1 where "st1 = st\<lparr>offset := offset st + 1\<rparr>"
  from Cons.prems(1) have rd: "fd_read 1 st = ([c], st1)"
    using fd_read_head [of st c "cs @ 0 # rest"] by (simp add: st1_def)
  from Cons.prems(1) have d: "drop (offset st1) (contents st1) = cs @ 0 # rest"
    using drop_step [of "offset st" "contents st" c "cs @ 0 # rest"] by (simp add: st1_def)
  from Cons.prems have c0: "c \<noteq> 0" and n0: "0 \<notin> set cs" and p: "pos + 1 + length cs < sz"
    by auto
  have "\<exists>r. ntbs_loop R result_size (i + 1) (pos + 1) sz st1 =
          (Inr r, pos + 1 + length cs + 1, st1\<lparr>offset := offset st1 + length cs + 1\<rparr>)" for R
    using Cons.IH [OF d n0 p] by blast
  then show ?case
    using Cons.prems rd c0
    by (subst ntbs_loop.simps) (simp add: st1_def)
qed

lemma parse_ntbs_skips:
  assumes "drop (offset st) (contents st) = name @ 0 # rest"
    and "0 \<notin> set name"
    and "pos + length name < sz"
  shows "status (parse_ntbs result result_size pos sz st) =
           (Inr (), pos + length name + 1, st\<lparr>offset := offset st + length name + 1\<rparr>)"
proof -
  obtain r where "ntbs_loop result result_size 0 pos sz st =
           (Inr r, pos + length name + 1, st\<lparr>offset := offset st + length name + 1\<rparr>)"
    using ntbs_loop_skips [OF assms] by blast
  then show ?thesis
    by (cases r) (simp_all add: parse_ntbs_def)
qed

lemma parse_uleb128_skips:
  assumes "drop (offset st) (contents st) = cs @ p # rest"
    and "\<forall>c \<in> set cs. c AND 0x80 \<noteq> 0"
    and "p AND 0x80 = 0"
    and "pos + length cs < sz"
  shows "status (parse_uleb128 pos sz st) =
           (Inr (), pos + length cs + 1, st\<lparr>offset := offset st + length cs + 1\<rparr>)"
  using uleb128_loop_decodes [OF assms, of 0 0] by (simp add: parse_uleb128_def)

lemma parse_attribute_at_tag:
  assumes "drop (offset st) (contents st) = t # rest" and "t \<le> 0x7f" and "pos < sh_size"
  shows "parse_attribute pos sh_size wchar_size st =
           attribute_switch (ucast t) (pos + 1) sh_size wchar_size (st\<lparr>offset := offset st + 1\<rparr>)"
  using parse_uleb128_single [OF assms] by (simp add: parse_attribute_def)

lemma attribute_switch_ntbs:
  assumes "payload_is_ntbs attr"
    and "drop (offset st) (contents st) = name @ 0 # rest"
    and "0 \<notin> set name"
    and "pos + length name < sz"
  shows "attribute_switch attr pos sz wchar_size st =
           (Inr (), pos + length name + 1, st\<lparr>offset := offset st + length name + 1\<rparr>)"
proof -
  have "attr \<noteq> 18"
    using assms(1) by (auto simp: payload_is_ntbs_def)
  with assms(1) have "attribute_switch attr pos sz wchar_size st =
      status (parse_ntbs (Some (replicate 1024 0)) 1024 pos sz st)
    \<or> attribute_switch attr pos sz wchar_size st = status (parse_ntbs None 0 pos sz st)"
    by (auto simp: attribute_switch_def payload_is_ntbs_def even_iff_mod_2_eq_zero)
  then show ?thesis
    using parse_ntbs_skips [OF assms(2-4)] by auto
qed

lemma attribute_switch_uleb128:
  assumes "\<not> payload_is_ntbs attr" and "attr \<noteq> 18"
    and "drop (offset st) (contents st) = cs @ p # rest"
    and "\<forall>c \<in> set cs. c AND 0x80 \<noteq> 0"
    and "p AND 0x80 = 0"
    and "pos + length cs < sz"
  shows "attribute_switch attr pos sz wchar_size st =
           (Inr (), pos + length cs + 1, st\<lparr>offset := offset st + length cs + 1\<rparr>)"
proof -
  from assms(1,2) have "attribute_switch attr pos sz wchar_size st =
      status (parse_uleb128 pos sz st)"
    by (auto simp: attribute_switch_def payload_is_ntbs_def even_iff_mod_2_eq_zero)
  then show ?thesis
    using parse_uleb128_skips [OF assms(3-6)] by simp
qed

lemma length_patched [simp]:
  "length (attribute_bytes (patched w a)) = length (attribute_bytes a)"
  by (cases a) simp_all

lemma drop_nonempty_offset:
  "drop n xs = y # ys \<Longrightarrow> n < length xs"
  by (metis drop_all leI list.distinct(1))

lemma contents_as_drop:
  "drop n xs = ys \<Longrightarrow> take n xs @ ys = xs"
  by (metis append_take_drop_id)

lemma update_after_drop:
  assumes "drop n xs = a # b # rest"
  shows "xs[n + 1 := w] = take n xs @ a # w # rest"
proof -
  have n: "n < length xs"
    using assms by (rule drop_nonempty_offset)
  have "xs = take n xs @ a # b # rest"
    using contents_as_drop [OF assms] by simp
  then have "xs[n + 1 := w] = (take n xs @ a # b # rest)[n + 1 := w]"
    by simp
  also have "\<dots> = take n xs @ (a # b # rest)[1 := w]"
    using n by (simp add: list_update_append)
  finally show ?thesis
    by simp
qed

lemma parse_attribute_well_formed:
  assumes "drop (offset st) (contents st) = attribute_bytes a @ rest"
    and "well_formed a"
    and "pos + length (attribute_bytes a) \<le> sz"
  shows "parse_attribute pos sz wchar_size st =
           (Inr (), pos + length (attribute_bytes a),
            st\<lparr>contents := take (offset st) (contents st) @ attribute_bytes (patched wchar_size a) @ rest,
               offset := offset st + length (attribute_bytes a),
               printed := printed st @ reported wchar_size a\<rparr>)"
proof (cases a)
  case (Wchar b)
  with assms have d: "drop (offset st) (contents st) = 0x12 # b # rest" and b: "b \<le> 0x7f"
    and p: "pos + 1 < sz"
    by simp_all
  show ?thesis
  proof (cases "0 \<le> sint wchar_size")
    case True
    with parse_attribute_patches [OF d b p] update_after_drop [OF d] Wchar show ?thesis
      by simp
  next
    case False
    then have "sint wchar_size < 0"
      by simp
    with parse_attribute_reports [OF d b p] contents_as_drop [OF d] Wchar False show ?thesis
      by simp
  qed
next
  case (Number t cs q)
  define st1 where "st1 = st\<lparr>offset := offset st + 1\<rparr>"
  from Number assms have d: "drop (offset st) (contents st) = t # (cs @ q # rest)"
    and t: "t \<le> 0x7f" "ucast t \<noteq> (18 :: u64)" "\<not> payload_is_ntbs (ucast t)"
    and c: "\<forall>c \<in> set cs. c AND 0x80 \<noteq> 0" "q AND 0x80 = 0"
    and p: "pos < sz" "pos + 1 + length cs < sz"
    by simp_all
  have d1: "drop (offset st1) (contents st1) = cs @ q # rest"
    using drop_step [OF d] by (simp add: st1_def)
  have "parse_attribute pos sz wchar_size st =
          attribute_switch (ucast t) (pos + 1) sz wchar_size st1"
    using parse_attribute_at_tag [OF d t(1) p(1)] by (simp add: st1_def)
  also have "\<dots> = (Inr (), pos + 1 + length cs + 1, st1\<lparr>offset := offset st1 + length cs + 1\<rparr>)"
    using t(3) t(2) d1 c p(2) by (rule attribute_switch_uleb128)
  finally show ?thesis
    using Number contents_as_drop [OF d] by (simp add: st1_def)
next
  case (Text t name)
  define st1 where "st1 = st\<lparr>offset := offset st + 1\<rparr>"
  from Text assms have d: "drop (offset st) (contents st) = t # (name @ 0 # rest)"
    and t: "t \<le> 0x7f" "payload_is_ntbs (ucast t)"
    and c: "0 \<notin> set name"
    and p: "pos < sz" "pos + 1 + length name < sz"
    by simp_all
  have d1: "drop (offset st1) (contents st1) = name @ 0 # rest"
    using drop_step [OF d] by (simp add: st1_def)
  have "parse_attribute pos sz wchar_size st =
          attribute_switch (ucast t) (pos + 1) sz wchar_size st1"
    using parse_attribute_at_tag [OF d t(1) p(1)] by (simp add: st1_def)
  also have "\<dots> = (Inr (), pos + 1 + length name + 1, st1\<lparr>offset := offset st1 + length name + 1\<rparr>)"
    using t(2) d1 c p(2) by (rule attribute_switch_ntbs)
  finally show ?thesis
    using Text contents_as_drop [OF d] by (simp add: st1_def)
qed

lemma aeabi_loop_well_formed:
  assumes "drop (offset st) (contents st) = concat (map attribute_bytes as) @ rest"
    and "\<forall>a \<in> set as. well_formed a"
    and "sz = pos + length (concat (map attribute_bytes as))"
  shows "aeabi_loop pos sz wchar_size st =
           (Inr (), sz,
            st\<lparr>contents := take (offset st) (contents st)
                             @ concat (map (\<lambda>a. attribute_bytes (patched wchar_size a)) as) @ rest,
               offset := offset st + length (concat (map attribute_bytes as)),
               printed := printed st @ concat (map (reported wchar_size) as)\<rparr>)"
  using assms
proof (induction as arbitrary: pos st)
  case Nil
  then show ?case
    using contents_as_drop [of "offset st" "contents st" rest]
    by (subst aeabi_loop.simps) simp
next
  case (Cons a as)
  define n where "n = length (attribute_bytes a)"
  define body where "body = concat (map attribute_bytes as)"
  define st1 where "st1 = st\<lparr>contents := take (offset st) (contents st)
                                         @ attribute_bytes (patched wchar_size a) @ body @ rest,
                             offset := offset st + n,
                             printed := printed st @ reported wchar_size a\<rparr>"
  have n0: "0 < n"
    by (cases a) (simp_all add: n_def)
  from Cons.prems have d: "drop (offset st) (contents st) = attribute_bytes a @ body @ rest"
    and wf: "well_formed a" "\<forall>a \<in> set as. well_formed a"
    and sz: "sz = pos + n + length body"
    by (simp_all add: body_def n_def)
  have o: "offset st \<le> length (contents st)"
    using d n0 by (cases "attribute_bytes a") (auto simp: n_def dest: drop_nonempty_offset)
  have pa: "parse_attribute pos sz wchar_size st = (Inr (), pos + n, st1)"
    using parse_attribute_well_formed [OF d wf(1), of pos sz wchar_size] sz
    by (simp add: n_def st1_def)
  have d1: "drop (offset st1) (contents st1) = body @ rest"
    using o by (simp add: st1_def n_def)
  have "aeabi_loop (pos + n) sz wchar_size st1 =
           (Inr (), sz,
            st1\<lparr>contents := take (offset st1) (contents st1)
                             @ concat (map (\<lambda>a. attribute_bytes (patched wchar_size a)) as) @ rest,
               offset := offset st1 + length (concat (map attribute_bytes as)),
               printed := printed st1 @ concat (map (reported wchar_size) as)\<rparr>)"
    using d1 wf(2) sz by (intro Cons.IH) (simp_all add: body_def)
  moreover have "take (offset st1) (contents st1)
                 = take (offset st) (contents st) @ attribute_bytes (patched wchar_size a)"
    using o by (simp add: st1_def n_def)
  ultimately have "aeabi_loop (pos + n) sz wchar_size st1 =
           (Inr (), sz,
            st\<lparr>contents := take (offset st) (contents st)
                             @ concat (map (\<lambda>a. attribute_bytes (patched wchar_size a)) (a # as)) @ rest,
               offset := offset st + length (concat (map attribute_bytes (a # as))),
               printed := printed st @ concat (map (reported wchar_size) (a # as))\<rparr>)"
    by (simp add: st1_def n_def)
  moreover have "pos < sz"
    using sz n0 by simp
  ultimately show ?case
    using pa by (subst aeabi_loop.simps) simp
qed

lemma drop_prefix:
  "drop n xs = pre @ ys \<Longrightarrow> length pre = k \<Longrightarrow> drop (n + k) xs = ys"
  using drop_more [of n xs pre ys] by simp

lemma section_of_well_formed_attributes:
  assumes "drop (offset st) (contents st) =
             0x41 # len @ aeabi @ 0 # ind # concat (map attribute_bytes as) @ rest"
    and "length len = 4"
    and "unat (elf32_word len) = 11 + length (concat (map attribute_bytes as))"
    and "ind \<noteq> 2" and "ind \<noteq> 3"
    and "\<forall>a \<in> set as. well_formed a"
  shows "parse_eabi_attr_section vendor_name (12 + length (concat (map attribute_bytes as)))
           wchar_size st =
           (Inr (),
            st\<lparr>contents := take (offset st + 12) (contents st)
                             @ concat (map (\<lambda>a. attribute_bytes (patched wchar_size a)) as) @ rest,
               offset := offset st + 12 + length (concat (map attribute_bytes as)),
               printed := printed st @ concat (map (reported wchar_size) as)\<rparr>)"
proof -
  define body where "body = concat (map attribute_bytes as)"
  define st12 where "st12 = st\<lparr>offset := offset st + 12\<rparr>"
  define L where "L = unat (elf32_word len)"
  have L: "L = 11 + length body" "10 < unat (elf32_word len)"
    "12 + length body = 1 + unat (elf32_word len)"
    using assms(3) by (simp_all add: L_def body_def)
  have d: "drop (offset st) (contents st) = (0x41 # len @ aeabi @ [0, ind]) @ body @ rest"
    using assms(1) by (simp add: body_def)
  have "length (0x41 # len @ aeabi @ [0, ind]) = 12"
    using assms(2) by (simp add: aeabi_def)
  from drop_prefix [OF d this] have d12: "drop (offset st12) (contents st12) = body @ rest"
    by (simp add: st12_def)
  have "parse_eabi_attr_section vendor_name (12 + length body) wchar_size st =
           (case aeabi_loop 11 (unat (elf32_word len)) wchar_size st12 of
              (Inl e, pos', st') \<Rightarrow> (Inl e, st')
            | (Inr u, pos', st') \<Rightarrow> (Inr (), st'))"
    unfolding st12_def
    using assms(1) assms(2) L(2) L(3) assms(4) assms(5)
    by (intro section_of_one_aeabi_subsection [where body = "body @ rest"]) (simp_all add: body_def)
  also have "aeabi_loop 11 (unat (elf32_word len)) wchar_size st12 =
           (Inr (), unat (elf32_word len),
            st12\<lparr>contents := take (offset st12) (contents st12)
                             @ concat (map (\<lambda>a. attribute_bytes (patched wchar_size a)) as) @ rest,
               offset := offset st12 + length (concat (map attribute_bytes as)),
               printed := printed st12 @ concat (map (reported wchar_size) as)\<rparr>)"
    using d12 assms(6) assms(3) by (intro aeabi_loop_well_formed) (simp_all add: body_def)
  finally show ?thesis
    by (simp add: st12_def body_def)
qed

lemma length_concat_patched:
  "length (concat (map (\<lambda>a. attribute_bytes (patched w a)) as))
     = length (concat (map attribute_bytes as))"
  by (induction as) simp_all

lemma length_concat_patched_comp:
  "length (concat (map (attribute_bytes \<circ> patched w) as))
     = length (concat (map attribute_bytes as))"
  using length_concat_patched [of w as] by (simp add: comp_def)

lemma well_formed_patched:
  "well_formed a \<Longrightarrow> well_formed (patched w a)"
  by (cases a) (simp_all add: nonneg_char)

lemma patched_read_only:
  "sint w < 0 \<Longrightarrow> patched w a = a"
  by (cases a) simp_all

lemma patch_round_trip:
  assumes "drop (offset st) (contents st) =
             0x41 # len @ aeabi @ 0 # ind # concat (map attribute_bytes as) @ rest"
    and "length len = 4"
    and "unat (elf32_word len) = 11 + length (concat (map attribute_bytes as))"
    and "ind \<noteq> 2" and "ind \<noteq> 3"
    and "\<forall>a \<in> set as. well_formed a"
    and "sh_size = 12 + length (concat (map attribute_bytes as))"
    and "sint read_only < 0"
  shows "\<exists>st'. parse_eabi_attr_section vendor_name sh_size wchar_size st = (Inr (), st')
           \<and> contents st' = take (offset st + 12) (contents st)
                 @ concat (map (\<lambda>a. attribute_bytes (patched wchar_size a)) as) @ rest
           \<and> length (contents st') = length (contents st)
           \<and> printed st' = printed st @ concat (map (reported wchar_size) as)
           \<and> parse_eabi_attr_section vendor_name' sh_size read_only (st'\<lparr>offset := offset st\<rparr>) =
               (Inr (), st'\<lparr>printed := printed st'
                     @ concat (map (\<lambda>a. reported read_only (patched wchar_size a)) as)\<rparr>)"
proof -
  define body where "body = concat (map attribute_bytes as)"
  define body' where "body' = concat (map (\<lambda>a. attribute_bytes (patched wchar_size a)) as)"
  define st' where "st' = st\<lparr>contents := take (offset st + 12) (contents st) @ body' @ rest,
               offset := offset st + 12 + length body,
               printed := printed st @ concat (map (reported wchar_size) as)\<rparr>"
  have run: "parse_eabi_attr_section vendor_name sh_size wchar_size st = (Inr (), st')"
    using section_of_well_formed_attributes [OF assms(1-6), of vendor_name wchar_size] assms(7)
    by (simp add: st'_def body_def body'_def)
  have lb: "length body' = length body"
    unfolding body_def body'_def by (induction as) simp_all
  have b': "body' = concat (map attribute_bytes (map (patched wchar_size) as))"
    by (simp add: body'_def comp_def)
  have d: "drop (offset st) (contents st) = (0x41 # len @ aeabi @ [0, ind]) @ body @ rest"
    using assms(1) by (simp add: body_def)
  have l12: "length (0x41 # len @ aeabi @ [0, ind]) = 12"
    using assms(2) by (simp add: aeabi_def)
  have o: "offset st + 12 \<le> length (contents st)"
  proof -
    have "length (drop (offset st) (contents st)) = 12 + length body + length rest"
      using l12 arg_cong [OF d, of length] by simp
    then show ?thesis
      by simp
  qed
  have t12: "take (offset st + 12) (contents st) = take (offset st) (contents st) @ (0x41 # len @ aeabi @ [0, ind])"
    using d l12 by (metis append_eq_conv_conj take_add)
  have len: "length (contents st') = length (contents st)"
  proof -
    have "contents st = take (offset st + 12) (contents st) @ body @ rest"
      using contents_as_drop [OF drop_prefix [OF d l12]] by simp
    then have "length (contents st) = length (take (offset st + 12) (contents st)) + length body + length rest"
      by (metis length_append add.assoc)
    then show ?thesis
      by (simp add: st'_def lb)
  qed
  define rt where "rt = st'\<lparr>offset := offset st\<rparr>"
  have "drop (offset rt) (contents rt) = 0x41 # len @ aeabi @ 0 # ind # body' @ rest"
    using o by (simp add: rt_def st'_def t12)
  then have drt: "drop (offset rt) (contents rt) =
               0x41 # len @ aeabi @ 0 # ind # concat (map attribute_bytes (map (patched wchar_size) as)) @ rest"
    unfolding b' .
  have wf: "\<forall>a \<in> set (map (patched wchar_size) as). well_formed a"
    using assms(6) by (simp add: well_formed_patched)
  have l3: "unat (elf32_word len) = 11 + length (concat (map attribute_bytes (map (patched wchar_size) as)))"
    using assms(3) by (simp add: length_concat_patched_comp)
  have ro: "map (\<lambda>a. attribute_bytes (patched read_only a)) (map (patched wchar_size) as)
            = map attribute_bytes (map (patched wchar_size) as)"
    using assms(8) by (simp add: patched_read_only)
  have "parse_eabi_attr_section vendor_name'
          (12 + length (concat (map attribute_bytes (map (patched wchar_size) as)))) read_only rt =
           (Inr (),
            rt\<lparr>contents := take (offset rt + 12) (contents rt)
                             @ concat (map (\<lambda>a. attribute_bytes (patched read_only a))
                                  (map (patched wchar_size) as)) @ rest,
               offset := offset rt + 12 + length (concat (map attribute_bytes (map (patched wchar_size) as))),
               printed := printed rt @ concat (map (reported read_only) (map (patched wchar_size) as))\<rparr>)"
    using drt assms(2) l3 assms(4) assms(5) wf by (rule section_of_well_formed_attributes)
  moreover have "take (offset rt + 12) (contents rt) = take (offset st + 12) (contents st)"
    using o by (simp add: rt_def st'_def)
  ultimately have "parse_eabi_attr_section vendor_name' sh_size read_only rt =
               (Inr (), st'\<lparr>printed := printed st'
                     @ concat (map (\<lambda>a. reported read_only (patched wchar_size a)) as)\<rparr>)"
    unfolding ro b' [symmetric] using assms(7) lb
    by (simp add: length_concat_patched_comp rt_def st'_def body_def comp_def)
  with run len show ?thesis
    by (auto simp: st'_def body'_def rt_def)
qed

section \<open>Properties of the ULEB128 reader\<close>

text \<open>
  C5. The claim: whenever the boundary is reached before a byte with a clear continuation
  bit is seen, also when the cursor equals the boundary on entry, the reader reports a
  truncation error and never returns success. The code does not: called with the cursor
  at the boundary, the reader reads nothing and returns success with the value 0, for
  every file and every boundary.
\<close>

theorem parse_uleb128_empty_field_succeeds:
  "parse_uleb128 sz sz st = (Inr 0, sz, st)"
  by (simp add: parse_uleb128_def uleb128_loop.simps)

text \<open>
  A section where the reader is called at the boundary: the subsection ends right after
  the byte of tag 18. The value is reported as 0, and with the patch request 4 the byte
  before the descriptor, the tag byte itself, is overwritten.
\<close>

lemma missing_value_of_tag_18:
  "parse_eabi_attr_section zeroed 13 4
     \<lparr>contents = [0x41, 0x0c, 0, 0, 0, 0x61, 0x65, 0x61, 0x62, 0x69, 0, 1, 0x12],
      offset = 0, printed = []\<rparr> =
   (Inr (),
    \<lparr>contents = [0x41, 0x0c, 0, 0, 0, 0x61, 0x65, 0x61, 0x62, 0x69, 0, 1, 4],
     offset = 13, printed = [Tag_value 0, Patched_to 4]\<rparr>)"
  by code_simp

text \<open>
  C6, as the specification states it: for every valid encoding of N continuation bytes and
  a terminator byte the reader returns exactly the sum of the low 7 bits of each byte
  shifted left by 7 times its index. The result is an \<^verbatim>\<open>unsigned long\<close> of 64 bits: the ten
  bytes \<open>80 80 80 80 80 80 80 80 80 02\<close> encode \<open>2 ^ 64\<close>, and the reader returns 0.
\<close>

theorem uleb128_wider_than_result:
  "parse_uleb128 0 10
     \<lparr>contents = [0x80, 0x80, 0x80, 0x80, 0x80, 0x80, 0x80, 0x80, 0x80, 0x02],
      offset = 0, printed = []\<rparr> =
   (Inr 0, 10,
    \<lparr>contents = [0x80, 0x80, 0x80, 0x80, 0x80, 0x80, 0x80, 0x80, 0x80, 0x02],
     offset = 10, printed = []\<rparr>)
   \<and> uleb128_value [0x80, 0x80, 0x80, 0x80, 0x80, 0x80, 0x80, 0x80, 0x80, 0x02]
       = 18446744073709551616"
proof
  show "parse_uleb128 0 10
     \<lparr>contents = [0x80, 0x80, 0x80, 0x80, 0x80, 0x80, 0x80, 0x80, 0x80, 0x02],
      offset = 0, printed = []\<rparr> =
   (Inr 0, 10,
    \<lparr>contents = [0x80, 0x80, 0x80, 0x80, 0x80, 0x80, 0x80, 0x80, 0x80, 0x02],
     offset = 10, printed = []\<rparr>)"
    by code_simp
  show "uleb128_value [0x80, 0x80, 0x80, 0x80, 0x80, 0x80, 0x80, 0x80, 0x80, 0x02]
       = 18446744073709551616"
    by (simp add: uleb128_value_def enumerate_eq_zip upt_rec)
qed

text \<open>
  C6, amended. For every valid encoding of N continuation bytes followed by one terminator
  byte, all within the boundary, the reader succeeds and advances the cursor, and the
  descriptor, by exactly N + 1. When the encoding has at most five bytes and a fifth byte
  is below 8, so that the value is below \<open>2 ^ 31\<close>, the integer returned is exactly the sum
  of the low 7 bits of each byte shifted left by 7 times its index.
\<close>

theorem uleb128_decodes:
  assumes "drop (offset st) (contents st) = cs @ t # rest"
    and "\<forall>c \<in> set cs. c AND 0x80 \<noteq> 0"
    and "t AND 0x80 = 0"
    and "pos + length cs < sz"
  shows "\<exists>v. parse_uleb128 pos sz st =
               (Inr v, pos + length cs + 1, st\<lparr>offset := offset st + length cs + 1\<rparr>)
             \<and> (length cs \<le> 4 \<and> (length cs = 4 \<longrightarrow> t < 8)
                  \<longrightarrow> unat v = uleb128_value (cs @ [t]))"
proof -
  have "length cs \<le> 4 \<and> (length cs = 4 \<longrightarrow> t < 8)
          \<longrightarrow> unat (uleb128_or 0 0 (cs @ [t])) = uleb128_value (cs @ [t])"
    using uleb128_or_exact [of 0 0 "cs @ [t]"] uleb128_fits [of cs t]
    by (simp add: uleb128_value_def)
  with uleb128_loop_decodes [OF assms, of 0 0] show ?thesis
    by (simp add: parse_uleb128_def)
qed

theorem uleb128_decodes_witness:
  "drop (offset \<lparr>contents = [0xe5, 0x8e, 0x26], offset = 0, printed = []\<rparr>)
        (contents \<lparr>contents = [0xe5, 0x8e, 0x26], offset = 0, printed = []\<rparr>)
     = [0xe5, 0x8e] @ 0x26 # []
   \<and> (0xe5 :: u8) AND 0x80 \<noteq> 0 \<and> (0x8e :: u8) AND 0x80 \<noteq> 0
   \<and> (0x26 :: u8) AND 0x80 = 0
   \<and> 0 + length [0xe5, 0x8e :: u8] < 3
   \<and> (\<exists>v. parse_uleb128 0 3 \<lparr>contents = [0xe5, 0x8e, 0x26], offset = 0, printed = []\<rparr> =
               (Inr v, 3, \<lparr>contents = [0xe5, 0x8e, 0x26], offset = 3, printed = []\<rparr>)
            \<and> unat v = 624485)"
proof -
  have h: "drop (offset \<lparr>contents = [0xe5, 0x8e, 0x26], offset = 0, printed = []\<rparr>)
        (contents \<lparr>contents = [0xe5, 0x8e, 0x26], offset = 0, printed = []\<rparr>)
     = [0xe5, 0x8e] @ 0x26 # []"
    "\<forall>c \<in> set [0xe5, 0x8e :: u8]. c AND 0x80 \<noteq> 0"
    "(0x26 :: u8) AND 0x80 = 0"
    "0 + length [0xe5, 0x8e :: u8] < 3"
    by simp_all
  have v: "uleb128_value ([0xe5, 0x8e] @ [0x26]) = 624485"
    by (simp add: uleb128_value_def)
  obtain v where p: "parse_uleb128 0 3 \<lparr>contents = [0xe5, 0x8e, 0x26], offset = 0, printed = []\<rparr> =
               (Inr v, 0 + length [0xe5, 0x8e :: u8] + 1,
                \<lparr>contents = [0xe5, 0x8e, 0x26], offset = 0, printed = []\<rparr>
                  \<lparr>offset := offset \<lparr>contents = [0xe5, 0x8e, 0x26], offset = 0, printed = []\<rparr>
                              + length [0xe5, 0x8e :: u8] + 1\<rparr>)"
    and u: "length [0xe5, 0x8e :: u8] \<le> 4 \<and> (length [0xe5, 0x8e :: u8] = 4 \<longrightarrow> (0x26 :: u8) < 8)
              \<longrightarrow> unat v = uleb128_value ([0xe5, 0x8e] @ [0x26])"
    using uleb128_decodes [OF h] by blast
  from u v have "unat v = 624485"
    by simp
  moreover from p
  have "parse_uleb128 0 3 \<lparr>contents = [0xe5, 0x8e, 0x26], offset = 0, printed = []\<rparr> =
               (Inr v, 3, \<lparr>contents = [0xe5, 0x8e, 0x26], offset = 3, printed = []\<rparr>)"
    by simp
  ultimately show ?thesis
    using h by auto
qed

section \<open>Properties of the attributes-section walker\<close>

text \<open>
  C10. For a section of declared size 0 the walker prints the message about the empty
  section and goes on: it reads the version byte, which lies beyond the section, and when
  that byte is \<open>'A'\<close> it returns success, the descriptor one byte further.
\<close>

theorem empty_section_succeeds:
  assumes "offset st < length (contents st)" and "contents st ! offset st = 0x41"
  shows "parse_eabi_attr_section vendor_name 0 wchar_size st =
           (Inr (), st\<lparr>offset := offset st + 1, printed := printed st @ [Empty_section]\<rparr>)"
proof -
  have "fd_read 1 (printf Empty_section st) =
          ([0x41], st\<lparr>offset := offset st + 1, printed := printed st @ [Empty_section]\<rparr>)"
    using assms fd_read_one [of "printf Empty_section st"] by (simp add: printf_def)
  then show ?thesis
    by (simp add: parse_eabi_attr_section_def section_loop.simps)
qed

theorem empty_section_succeeds_witness:
  "offset \<lparr>contents = [0x41], offset = 0, printed = []\<rparr>
     < length (contents \<lparr>contents = [0x41], offset = 0, printed = []\<rparr>)
   \<and> parse_eabi_attr_section zeroed 0 0 \<lparr>contents = [0x41], offset = 0, printed = []\<rparr> =
       (Inr (), \<lparr>contents = [0x41], offset = 1, printed = [Empty_section]\<rparr>)"
  using empty_section_succeeds [of "\<lparr>contents = [0x41], offset = 0, printed = []\<rparr>" zeroed 0]
  by simp

text \<open>
  C8. When a subsection begins (the loop is entered at \<open>pos\<close>) with fewer than 4 bytes left
  before the section boundary, or with a declared length that added to \<open>pos\<close> exceeds the
  section size, the walker returns an error, and of the subsection it has consumed at
  most the 4 bytes of the length field; the file is as it was.
\<close>

theorem subsection_bounds_checked:
  assumes "pos < sh_size"
    and "sh_size < pos + 4
         \<or> sh_size < pos + unat (elf32_word (take 4 (drop (offset st) (contents st))))"
  shows "\<exists>e st'. section_loop vendor_name pos sh_size wchar_size st = (Inl e, st')
           \<and> e \<in> {Unexpected_end_of_section, Reading_subsection_size, Subsection_outside_bounds}
           \<and> contents st' = contents st \<and> printed st' = printed st
           \<and> offset st' \<le> offset st + 4"
  using assms
  by (auto simp: section_loop.simps [of vendor_name pos sh_size wchar_size st]
      parse_subsection_def fd_read_def Let_def)

theorem subsection_bounds_checked_witness:
  "(1 :: nat) < 9
   \<and> 9 < 1 + unat (elf32_word (take 4 (drop
           (offset \<lparr>contents = [0x41, 9, 0, 0, 0, 0x61, 0x65, 0x61, 0x62], offset = 1, printed = []\<rparr>)
           (contents \<lparr>contents = [0x41, 9, 0, 0, 0, 0x61, 0x65, 0x61, 0x62], offset = 1, printed = []\<rparr>))))
   \<and> (\<exists>e st'. section_loop zeroed 1 9 0
                 \<lparr>contents = [0x41, 9, 0, 0, 0, 0x61, 0x65, 0x61, 0x62], offset = 1, printed = []\<rparr>
               = (Inl e, st')
           \<and> e \<in> {Unexpected_end_of_section, Reading_subsection_size, Subsection_outside_bounds}
           \<and> contents st' = [0x41, 9, 0, 0, 0, 0x61, 0x65, 0x61, 0x62] \<and> printed st' = []
           \<and> offset st' \<le> 1 + 4)"
proof -
  have h: "9 < 1 + unat (elf32_word (take 4 (drop
           (offset \<lparr>contents = [0x41, 9, 0, 0, 0, 0x61, 0x65, 0x61, 0x62], offset = 1, printed = []\<rparr>)
           (contents \<lparr>contents = [0x41, 9, 0, 0, 0, 0x61, 0x65, 0x61, 0x62], offset = 1, printed = []\<rparr>))))"
    by (simp add: elf32_word_def)
  have l: "(1 :: nat) < 9"
    by simp
  from subsection_bounds_checked [OF l disjI2, OF h, of zeroed 0] h show ?thesis
    by simp
qed

text \<open>
  C9. The walker's loop ends on every input: a turn of the loop that does not return an
  error moves the outer cursor at least 4 bytes forward, and from \<open>pos\<close> the loop has
  returned after at most \<open>(sh_size - pos + 3) div 4\<close> turns and one more test of its
  condition.
\<close>

theorem section_loop_terminates:
  "(\<forall>pos' st'. parse_subsection (vendor_name pos) pos sh_size wchar_size st = (Inr pos', st')
        \<longrightarrow> pos + 4 \<le> pos')
   \<and> section_loop_turns (Suc ((sh_size - pos + 3) div 4)) vendor_name pos sh_size wchar_size st
       = Some (section_loop vendor_name pos sh_size wchar_size st)"
proof
  show "\<forall>pos' st'. parse_subsection (vendor_name pos) pos sh_size wchar_size st = (Inr pos', st')
          \<longrightarrow> pos + 4 \<le> pos'"
    using parse_subsection_advances by blast
next
  have "(sh_size - pos + 3) div 4 < n \<Longrightarrow>
          section_loop_turns n vendor_name pos sh_size wchar_size st
          = Some (section_loop vendor_name pos sh_size wchar_size st)" for n
  proof (induction n arbitrary: pos st)
    case 0
    then show ?case by simp
  next
    case (Suc n)
    show ?case
    proof (cases "pos < sh_size")
      case False
      then show ?thesis
        by (simp add: section_loop.simps)
    next
      case True
      obtain r st1
        where b: "parse_subsection (vendor_name pos) pos sh_size wchar_size st = (r, st1)"
        by (cases "parse_subsection (vendor_name pos) pos sh_size wchar_size st")
      show ?thesis
      proof (cases r)
        case (Inl e)
        with True b show ?thesis
          by (simp add: section_loop.simps [of vendor_name pos])
      next
        case (Inr pos')
        with b have "pos + 4 \<le> pos'"
          using parse_subsection_advances by blast
        moreover from Suc.prems have "sh_size - pos + 3 < Suc n * 4"
          by (simp only: div_less_iff_less_mult [of 4, OF zero_less_numeral])
        ultimately have "sh_size - pos' + 3 < n * 4"
          using True by arith
        then have "(sh_size - pos' + 3) div 4 < n"
          by (simp only: div_less_iff_less_mult [of 4, OF zero_less_numeral])
        from Suc.IH [OF this] True b Inr show ?thesis
          by (simp add: section_loop.simps [of vendor_name pos])
      qed
    qed
  qed
  from this [of "Suc ((sh_size - pos + 3) div 4)"]
  show "section_loop_turns (Suc ((sh_size - pos + 3) div 4)) vendor_name pos sh_size
               wchar_size st
             = Some (section_loop vendor_name pos sh_size wchar_size st)"
    by (simp only: lessI)
qed

theorem section_loop_terminates_witness:
  "parse_subsection (zeroed 1) 1 14 (- 1)
     \<lparr>contents = [0x41, 0x0d, 0, 0, 0, 0x61, 0x65, 0x61, 0x62, 0x69, 0, 1, 0x12, 4],
      offset = 1, printed = []\<rparr> =
   (Inr 14,
    \<lparr>contents = [0x41, 0x0d, 0, 0, 0, 0x61, 0x65, 0x61, 0x62, 0x69, 0, 1, 0x12, 4],
     offset = 14, printed = [Tag_value 4, Newline]\<rparr>)
   \<and> (1 :: nat) + 4 \<le> 14
   \<and> section_loop_turns (Suc ((14 - 1 + 3) div 4)) zeroed 1 14 (- 1)
       \<lparr>contents = [0x41, 0x0d, 0, 0, 0, 0x61, 0x65, 0x61, 0x62, 0x69, 0, 1, 0x12, 4],
        offset = 1, printed = []\<rparr> =
     Some (section_loop zeroed 1 14 (- 1)
       \<lparr>contents = [0x41, 0x0d, 0, 0, 0, 0x61, 0x65, 0x61, 0x62, 0x69, 0, 1, 0x12, 4],
        offset = 1, printed = []\<rparr>)"
proof -
  have e: "parse_subsection (zeroed 1) 1 14 (- 1)
     \<lparr>contents = [0x41, 0x0d, 0, 0, 0, 0x61, 0x65, 0x61, 0x62, 0x69, 0, 1, 0x12, 4],
      offset = 1, printed = []\<rparr> =
   (Inr 14,
    \<lparr>contents = [0x41, 0x0d, 0, 0, 0, 0x61, 0x65, 0x61, 0x62, 0x69, 0, 1, 0x12, 4],
     offset = 14, printed = [Tag_value 4, Newline]\<rparr>)"
    by code_simp
  from section_loop_terminates [of zeroed 1 14 "- 1"
      "\<lparr>contents = [0x41, 0x0d, 0, 0, 0, 0x61, 0x65, 0x61, 0x62, 0x69, 0, 1, 0x12, 4],
        offset = 1, printed = []\<rparr>"] e
  show ?thesis
    by blast
qed

text \<open>
  A turn of the walker's loop returns without an error only when the vendor name read is
  "aeabi": the relative seek over any other subsection cannot fail, and its success is
  taken for the failure.
\<close>

lemma parse_subsection_success_is_aeabi:
  assumes "parse_subsection vendor_name pos sh_size wchar_size st = (Inr pos', st')"
  shows "\<exists>name spos st2.
           parse_ntbs (Some (map vendor_name [0..<128])) 128 4
             (unat (elf32_word (fst (fd_read 4 st)))) (snd (fd_read 4 st)) = (Inr name, spos, st2)
           \<and> strcmp_eq name aeabi"
proof -
  obtain bs st1 where rd: "fd_read 4 st = (bs, st1)"
    by (cases "fd_read 4 st")
  define L where "L = unat (elf32_word bs)"
  from assms rd have ok: "\<not> sh_size < pos + 4" "length bs = 4" "\<not> sh_size < pos + L"
    by (auto simp: parse_subsection_def L_def split: if_splits)
  obtain r2 spos st2
    where nt: "parse_ntbs (Some (map vendor_name [0..<128])) 128 4 L st1 = (r2, spos, st2)"
    by (cases "parse_ntbs (Some (map vendor_name [0..<128])) 128 4 L st1")
  note c = parse_ntbs_cursor [OF nt]
  from assms rd ok nt obtain name where r2: "r2 = Inr name"
    by (cases r2) (auto simp: parse_subsection_def L_def)
  have "strcmp_eq name aeabi"
  proof (rule ccontr)
    assume no: "\<not> strcmp_eq name aeabi"
    have "offset st1 = offset st + 4"
      using rd ok fd_read_offset [of 4 st] by simp
    then have "0 \<le> int (offset st2) + (int L - int spos)"
      using c by linarith
    then obtain st3 where "lseek_cur (int L - int spos) st2 = Some st3"
      by (auto simp: lseek_cur_def)
    with assms rd ok nt r2 no show False
      by (simp add: parse_subsection_def L_def)
  qed
  with nt r2 rd show ?thesis
    by (simp add: L_def)
qed

text \<open>
  C2. The claim: a subsection whose vendor name is not "aeabi" is skipped by a relative
  seek and the walk goes on. The code does not go on: the test after the seek is
  \<^verbatim>\<open>lseek(...) != -1\<close>, so that the walker returns 1 when the seek has succeeded. Here the
  section holds one subsection of 8 bytes with the vendor name "gnu"; the seek is by 0
  bytes and the walker fails.
\<close>

theorem unknown_subsection_fails:
  "parse_eabi_attr_section zeroed 9 (- 1)
     \<lparr>contents = [0x41, 8, 0, 0, 0, 0x67, 0x6e, 0x75, 0], offset = 0, printed = []\<rparr> =
   (Inl Skipping_unknown_subsection,
    \<lparr>contents = [0x41, 8, 0, 0, 0, 0x67, 0x6e, 0x75, 0], offset = 9, printed = []\<rparr>)"
  by code_simp

section \<open>Properties of the tag dispatcher\<close>

text \<open>
  C1. The claim: when tag 18 is decoded with a value above \<open>0x7f\<close> and a patch is requested,
  the patch is refused and the file is unchanged. The code prints the message and, with
  no \<^verbatim>\<open>return\<close> after it, seeks back and writes all the same. Here the value of tag 18 is
  128, encoded as \<open>80 01\<close>, and the patch request is 0: the message is printed, the byte
  \<open>01\<close> is overwritten with \<open>00\<close>, and the walker returns success.
\<close>

theorem old_value_too_big_is_patched:
  "parse_eabi_attr_section zeroed 15 0
     \<lparr>contents = [0x41, 0x0e, 0, 0, 0, 0x61, 0x65, 0x61, 0x62, 0x69, 0, 1, 0x12, 0x80, 1],
      offset = 0, printed = []\<rparr> =
   (Inr (),
    \<lparr>contents = [0x41, 0x0e, 0, 0, 0, 0x61, 0x65, 0x61, 0x62, 0x69, 0, 1, 0x12, 0x80, 0],
     offset = 15, printed = [Tag_value 128, Old_value_too_big, Patched_to 0]\<rparr>)"
  by code_simp

text \<open>
  The scenario of the specification: the section \<open>"A"\<close>, length 13, \<open>"aeabi"\<close>, indicator 1,
  tag 18 with the value 4. The read-only run reports 4; the run with the patch request 0
  turns the byte \<open>04\<close> into \<open>00\<close>; the read-only run on the patched file reports 0.
\<close>

lemma scenario_report_patch_report:
  "parse_eabi_attr_section zeroed 14 (- 1)
     \<lparr>contents = [0x41, 0x0d, 0, 0, 0, 0x61, 0x65, 0x61, 0x62, 0x69, 0, 1, 0x12, 4],
      offset = 0, printed = []\<rparr> =
   (Inr (),
    \<lparr>contents = [0x41, 0x0d, 0, 0, 0, 0x61, 0x65, 0x61, 0x62, 0x69, 0, 1, 0x12, 4],
     offset = 14, printed = [Tag_value 4, Newline]\<rparr>)
   \<and> parse_eabi_attr_section zeroed 14 0
     \<lparr>contents = [0x41, 0x0d, 0, 0, 0, 0x61, 0x65, 0x61, 0x62, 0x69, 0, 1, 0x12, 4],
      offset = 0, printed = []\<rparr> =
   (Inr (),
    \<lparr>contents = [0x41, 0x0d, 0, 0, 0, 0x61, 0x65, 0x61, 0x62, 0x69, 0, 1, 0x12, 0],
     offset = 14, printed = [Tag_value 4, Patched_to 0]\<rparr>)
   \<and> parse_eabi_attr_section zeroed 14 (- 1)
     \<lparr>contents = [0x41, 0x0d, 0, 0, 0, 0x61, 0x65, 0x61, 0x62, 0x69, 0, 1, 0x12, 0],
      offset = 0, printed = []\<rparr> =
   (Inr (),
    \<lparr>contents = [0x41, 0x0d, 0, 0, 0, 0x61, 0x65, 0x61, 0x62, 0x69, 0, 1, 0x12, 0],
     offset = 14, printed = [Tag_value 0, Newline]\<rparr>)"
  by code_simp

text \<open>
  C7, as the specification states it: when tag 18 is decoded with a value \<open>v \<le> 0x7f\<close> and
  patched to \<open>v' \<le> 0x7f\<close>, a second decode reports \<open>v'\<close>. A value below \<open>0x80\<close> may be
  encoded in more than one byte: here tag 18 has the value 4 encoded as \<open>84 00\<close>. The
  read-only run reports 4; the run with the patch request 1 overwrites the last byte of
  the encoding; the read-only run on the patched file reports 132.
\<close>

theorem padded_value_patch_not_redecoded:
  "parse_eabi_attr_section zeroed 15 (- 1)
     \<lparr>contents = [0x41, 0x0e, 0, 0, 0, 0x61, 0x65, 0x61, 0x62, 0x69, 0, 1, 0x12, 0x84, 0],
      offset = 0, printed = []\<rparr> =
   (Inr (),
    \<lparr>contents = [0x41, 0x0e, 0, 0, 0, 0x61, 0x65, 0x61, 0x62, 0x69, 0, 1, 0x12, 0x84, 0],
     offset = 15, printed = [Tag_value 4, Newline]\<rparr>)
   \<and> parse_eabi_attr_section zeroed 15 1
     \<lparr>contents = [0x41, 0x0e, 0, 0, 0, 0x61, 0x65, 0x61, 0x62, 0x69, 0, 1, 0x12, 0x84, 0],
      offset = 0, printed = []\<rparr> =
   (Inr (),
    \<lparr>contents = [0x41, 0x0e, 0, 0, 0, 0x61, 0x65, 0x61, 0x62, 0x69, 0, 1, 0x12, 0x84, 1],
     offset = 15, printed = [Tag_value 4, Patched_to 1]\<rparr>)
   \<and> parse_eabi_attr_section zeroed 15 (- 1)
     \<lparr>contents = [0x41, 0x0e, 0, 0, 0, 0x61, 0x65, 0x61, 0x62, 0x69, 0, 1, 0x12, 0x84, 1],
      offset = 0, printed = []\<rparr> =
   (Inr (),
    \<lparr>contents = [0x41, 0x0e, 0, 0, 0, 0x61, 0x65, 0x61, 0x62, 0x69, 0, 1, 0x12, 0x84, 1],
     offset = 15, printed = [Tag_value 132, Newline]\<rparr>)"
  by code_simp

text \<open>
  C7, amended. When the bytes at the descriptor are tag 18 and a value encoded in the
  single byte \<open>b \<le> 0x7f\<close>, inside the subsection, then decoding this attribute with a patch
  request \<open>v'\<close> (\<open>0 \<le> v' \<le> 0x7f\<close>) reports \<open>b\<close> and overwrites exactly the byte that
  holds \<open>b\<close> with \<open>v'\<close>: the length of the file and every other byte are as before. Decoding
  the attribute again from the patched file, in read-only mode, reports \<open>v'\<close> and leaves the
  file as it is.
\<close>

theorem single_byte_patch:
  assumes "drop (offset st) (contents st) = 0x12 # b # rest"
    and "b \<le> 0x7f"
    and "pos + 1 < sh_size"
    and "0 \<le> sint wchar_size"
    and "sint read_only < 0"
  shows "parse_attribute pos sh_size wchar_size st =
           (Inr (), pos + 2,
            st\<lparr>contents := (contents st)[offset st + 1 := wchar_size],
               offset := offset st + 2,
               printed := printed st @ [Tag_value (ucast b), Patched_to (sint wchar_size)]\<rparr>)
       \<and> parse_attribute pos sh_size read_only
             (st\<lparr>contents := (contents st)[offset st + 1 := wchar_size]\<rparr>) =
           (Inr (), pos + 2,
            st\<lparr>contents := (contents st)[offset st + 1 := wchar_size],
               offset := offset st + 2,
               printed := printed st @ [Tag_value (ucast wchar_size), Newline]\<rparr>)"
proof
  show "parse_attribute pos sh_size wchar_size st =
           (Inr (), pos + 2,
            st\<lparr>contents := (contents st)[offset st + 1 := wchar_size],
               offset := offset st + 2,
               printed := printed st @ [Tag_value (ucast b), Patched_to (sint wchar_size)]\<rparr>)"
    using assms(1-4) by (rule parse_attribute_patches)
next
  define pt where "pt = st\<lparr>contents := (contents st)[offset st + 1 := wchar_size]\<rparr>"
  have p0: "drop (offset pt) (contents pt) = 0x12 # wchar_size # rest"
    using drop_update_second [OF assms(1)] by (simp add: pt_def)
  have w: "wchar_size \<le> 0x7f"
    using assms(4) by (rule nonneg_char)
  have "parse_attribute pos sh_size read_only pt =
           (Inr (), pos + 2,
            pt\<lparr>offset := offset pt + 2,
               printed := printed pt @ [Tag_value (ucast wchar_size), Newline]\<rparr>)"
    using p0 w assms(3) assms(5) by (rule parse_attribute_reports)
  then show "parse_attribute pos sh_size read_only
             (st\<lparr>contents := (contents st)[offset st + 1 := wchar_size]\<rparr>) =
           (Inr (), pos + 2,
            st\<lparr>contents := (contents st)[offset st + 1 := wchar_size],
               offset := offset st + 2,
               printed := printed st @ [Tag_value (ucast wchar_size), Newline]\<rparr>)"
    by (simp add: pt_def)
qed

theorem single_byte_patch_witness:
  "drop (offset \<lparr>contents = [1, 0x12, 4], offset = 1, printed = []\<rparr>)
        (contents \<lparr>contents = [1, 0x12, 4], offset = 1, printed = []\<rparr>) = 0x12 # 4 # []
   \<and> (4 :: u8) \<le> 0x7f \<and> (11 :: nat) + 1 < 13 \<and> 0 \<le> sint (0 :: u8) \<and> sint (- 1 :: u8) < 0
   \<and> parse_attribute 11 13 0 \<lparr>contents = [1, 0x12, 4], offset = 1, printed = []\<rparr> =
         (Inr (), 13, \<lparr>contents = [1, 0x12, 0], offset = 3,
                        printed = [Tag_value 4, Patched_to 0]\<rparr>)
   \<and> parse_attribute 11 13 (- 1) \<lparr>contents = [1, 0x12, 0], offset = 1, printed = []\<rparr> =
         (Inr (), 13, \<lparr>contents = [1, 0x12, 0], offset = 3,
                        printed = [Tag_value 0, Newline]\<rparr>)"
proof -
  have h: "drop (offset \<lparr>contents = [1, 0x12, 4], offset = 1, printed = []\<rparr>)
        (contents \<lparr>contents = [1, 0x12, 4], offset = 1, printed = []\<rparr>) = 0x12 # 4 # []"
    "(4 :: u8) \<le> 0x7f" "(11 :: nat) + 1 < 13" "0 \<le> sint (0 :: u8)" "sint (- 1 :: u8) < 0"
    by simp_all
  from single_byte_patch [OF h] h show ?thesis
    by simp
qed

text \<open>
  Entered with the cursor at or beyond the size of a subsection that is not empty, the
  dispatcher reads one byte all the same, moves the cursor one further and returns
  success.
\<close>

lemma indicator_read_unguarded:
  assumes "0 < sh_size" and "sh_size \<le> pos" and "offset st < length (contents st)"
  shows "parse_eabi_attr_aeabi_subsection pos sh_size wchar_size st =
           (Inr (), pos + 1, st\<lparr>offset := offset st + 1\<rparr>)"
proof -
  have "skip_identifiers (pos + 1) sh_size s = (Inr (), pos + 1, s)" for s
  proof -
    from assms(2) have "parse_uleb128 (pos + 1) sh_size s = (Inr 0, pos + 1, s)"
      by (intro parse_uleb128_at_boundary) simp
    then show ?thesis
      by (subst skip_identifiers.simps) simp
  qed
  moreover have "aeabi_loop (pos + 1) sh_size wchar_size s = (Inr (), pos + 1, s)" for s
    using assms(2) by (simp add: aeabi_loop.simps)
  ultimately show ?thesis
    using assms(1) fd_read_one [OF assms(3)]
    by (simp add: parse_eabi_attr_aeabi_subsection_def)
qed

text \<open>
  C3. The claim: the cursor of a subsection never exceeds the size of the subsection, in
  particular not at the read of the indicator tag. The code tests \<^verbatim>\<open>sh_size < 1\<close> before
  that read, not \<^verbatim>\<open>*pos < sh_size\<close>. Here the subsection has 10 bytes, its length field and
  the name "aeabi": the dispatcher is entered with the cursor at 10, reads the byte that
  follows the subsection and leaves the cursor at 11; the walker adds 11 to its own cursor,
  which passes the section size 11.
\<close>

theorem indicator_read_exceeds_subsection:
  "parse_eabi_attr_aeabi_subsection 10 10 (- 1)
     \<lparr>contents = [0x41, 10, 0, 0, 0, 0x61, 0x65, 0x61, 0x62, 0x69, 0, 0x41],
      offset = 11, printed = []\<rparr> =
   (Inr (), 11,
    \<lparr>contents = [0x41, 10, 0, 0, 0, 0x61, 0x65, 0x61, 0x62, 0x69, 0, 0x41],
     offset = 12, printed = []\<rparr>)
   \<and> parse_subsection (zeroed 1) 1 11 (- 1)
     \<lparr>contents = [0x41, 10, 0, 0, 0, 0x61, 0x65, 0x61, 0x62, 0x69, 0, 0x41],
      offset = 1, printed = []\<rparr> =
   (Inr 12,
    \<lparr>contents = [0x41, 10, 0, 0, 0, 0x61, 0x65, 0x61, 0x62, 0x69, 0, 0x41],
     offset = 12, printed = []\<rparr>)"
  by code_simp

section \<open>Properties of the command line\<close>

text \<open>
  C4, as the specification states it: a replacement value outside \<open>0 .. 0x7f\<close>, every
  negative value included, makes the program fail before the file is opened. The code
  tests \<^verbatim>\<open>wchar_size > 0x7f\<close> only: with the value -1 it calls \<^verbatim>\<open>process\<close>.
\<close>

theorem negative_replacement_accepted:
  "sint (- 1 :: u32) < 0
   \<and> main [''arm-wchar-tag'', ''a.o'', ''-1''] (Some (- 1)) = Process ''a.o'' 255"
  by code_simp

text \<open>
  C4, amended. With a replacement value on the command line, the program returns 1 before
  the file is opened when the value does not parse as an integer or is greater than
  \<open>0x7f\<close>; a value from 0 to \<open>0x7f\<close> is accepted, and \<^verbatim>\<open>process\<close> is called with the file name
  and with that value as the patch request.
\<close>

theorem replacement_value_checked:
  assumes "length argv = 3"
  shows "(scanned = None \<longrightarrow> main argv scanned = Exit 1)
       \<and> (\<forall>v. scanned = Some v \<and> 0x7f < sint v \<longrightarrow> main argv scanned = Exit 1)
       \<and> (\<forall>v. scanned = Some v \<and> 0 \<le> sint v \<and> sint v \<le> 0x7f \<longrightarrow>
              (\<exists>c. main argv scanned = Process (argv ! 1) c \<and> sint c = sint v))"
proof -
  have "sint (ucast v :: u8) = sint v" if "0 \<le> sint v" "sint v \<le> 0x7f" for v :: u32
  proof -
    from that have "sint v = signed_take_bit 7 (sint v)"
      by (simp add: signed_take_bit_int_eq_self)
    then show ?thesis
      by (simp add: sint_uint signed_take_bit_eq_iff_take_bit_eq unsigned_ucast_eq
          take_bit_eq_mod sint_uint [symmetric])
  qed
  with assms show ?thesis
    by (auto simp: main_def)
qed

theorem replacement_value_checked_witness:
  "length [''arm-wchar-tag'', ''a.o'', ''4''] = 3
   \<and> 0 \<le> sint (4 :: u32) \<and> sint (4 :: u32) \<le> 0x7f
   \<and> (\<exists>c. main [''arm-wchar-tag'', ''a.o'', ''4''] (Some 4) = Process ''a.o'' c \<and> sint c = 4)"
proof -
  have l: "length [''arm-wchar-tag'', ''a.o'', ''4''] = 3"
    by simp
  from replacement_value_checked [OF l, of "Some 4"] show ?thesis
    by simp
qed

end
